theory Spec2Isabelle
  imports Complex_Main
begin

chapter \<open>The embedding of model.c\<close>

section \<open>Constants of the missing headers\<close>

text \<open>
  \<^verbatim>\<open>model.c\<close> includes \<^verbatim>\<open>model.h\<close> and \<^verbatim>\<open>interface.h\<close>, which define
  \<^verbatim>\<open>NUM_ROWS\<close>, \<^verbatim>\<open>NUM_COLS\<close> and \<^verbatim>\<open>CELL_DISPLAY_WIDTH\<close>. Their values are
  parameters of every definition below. \<^verbatim>\<open>MAX_TERMS\<close> is defined in \<^verbatim>\<open>model.c\<close> itself.
\<close>

record config =
  NUM_ROWS :: nat
  NUM_COLS :: nat
  CELL_DISPLAY_WIDTH :: nat

definition MAX_TERMS :: nat where
  "MAX_TERMS = 10"

section \<open>The C type double\<close>

text \<open>
  A \<^verbatim>\<open>double\<close> is an IEEE 754 binary64 value: a finite value (a rational that has a
  binary64 representation, \<open>Finite 0\<close> being \<open>+0.0\<close>), negative zero, an infinity or a
  NaN with its sign bit (\<open>NaN True\<close> is a NaN whose sign bit is set, which \<^verbatim>\<open>%f\<close> prints
  as \<^verbatim>\<open>-nan\<close>; the payload of a NaN is not kept). Arithmetic rounds to nearest, ties to
  even.
\<close>

datatype double = Finite rat | NegZero | PosInf | NegInf | NaN bool

fun log2floor :: "nat \<Rightarrow> nat" where
  "log2floor n = (if n < 2 then 0 else Suc (log2floor (n div 2)))"

definition pow2 :: "int \<Rightarrow> rat" where
  "pow2 e = (if 0 \<le> e then 2 ^ nat e else 1 / 2 ^ nat (- e))"

definition pow10 :: "int \<Rightarrow> rat" where
  "pow10 e = (if 0 \<le> e then 10 ^ nat e else 1 / 10 ^ nat (- e))"

text \<open>\<open>ilog2 a\<close> is the binary exponent of \<open>a > 0\<close>: \<open>2 ^ e \<le> a < 2 ^ (e + 1)\<close>.\<close>

definition ilog2 :: "rat \<Rightarrow> int" where
  "ilog2 a = (if 1 \<le> a then int (log2floor (nat \<lfloor>a\<rfloor>))
     else (let k = int (log2floor (nat \<lfloor>1 / a\<rfloor>))
           in if pow2 (- k) = a then - k else - k - 1))"

definition round_half_even :: "rat \<Rightarrow> int" where
  "round_half_even x = (let f = \<lfloor>x\<rfloor>; r = x - of_int f
     in if r < 1 / 2 then f else if 1 / 2 < r then f + 1 else if even f then f else f + 1)"

text \<open>
  Rounding of an exact value to binary64: 53 significant bits, least exponent \<open>-1022\<close>
  (subnormal values below it), overflow to an infinity from \<open>2 ^ 1024\<close>.
\<close>

definition round_double :: "rat \<Rightarrow> double" where
  "round_double q = (let a = \<bar>q\<bar> in
     if 2 ^ 1024 \<le> a then (if q < 0 then NegInf else PosInf)
     else if a * 2 ^ 1075 \<le> 1 then (if q < 0 then NegZero else Finite 0)
     else (let e = max (ilog2 a) (- 1022); ulp = pow2 (e - 52);
               m = of_int (round_half_even (a / ulp)) * ulp
           in if 2 ^ 1024 \<le> m then (if q < 0 then NegInf else PosInf)
              else Finite (if q < 0 then - m else m)))"

text \<open>
  The C operator \<^verbatim>\<open>+\<close> on two doubles. IEEE 754 leaves the sign of a NaN result open;
  it is that of the SSE2 addition of x86-64 here: the first operand that is a NaN, and
  the default NaN, whose sign bit is set, for the sum of opposite infinities.
  \<^verbatim>\<open>model.c\<close> only tests a sum with \<^verbatim>\<open>isnan\<close> and never prints one that is a NaN.
\<close>

fun dbl_add :: "double \<Rightarrow> double \<Rightarrow> double" where
  "dbl_add (NaN s) y = NaN s"
| "dbl_add x (NaN s) = NaN s"
| "dbl_add PosInf NegInf = NaN True"
| "dbl_add NegInf PosInf = NaN True"
| "dbl_add PosInf y = PosInf"
| "dbl_add x PosInf = PosInf"
| "dbl_add NegInf y = NegInf"
| "dbl_add x NegInf = NegInf"
| "dbl_add NegZero y = y"
| "dbl_add x NegZero = x"
| "dbl_add (Finite x) (Finite y) = (if x + y = 0 then Finite 0 else round_double (x + y))"

text \<open>The C operator unary \<^verbatim>\<open>-\<close>: it flips the sign bit, of a NaN too.\<close>

definition dbl_neg :: "double \<Rightarrow> double" where
  "dbl_neg d = (case d of
       Finite q \<Rightarrow> (if q = 0 then NegZero else Finite (- q))
     | NegZero \<Rightarrow> Finite 0
     | PosInf \<Rightarrow> NegInf
     | NegInf \<Rightarrow> PosInf
     | NaN s \<Rightarrow> NaN (\<not> s))"

text \<open>The macros \<^verbatim>\<open>isnan\<close> and \<^verbatim>\<open>isinf\<close> of \<^verbatim>\<open>math.h\<close>.\<close>

definition isnan :: "double \<Rightarrow> bool" where
  "isnan d = (case d of NaN s \<Rightarrow> True | _ \<Rightarrow> False)"

definition isinf :: "double \<Rightarrow> bool" where
  "isinf d = (d = PosInf \<or> d = NegInf)"

section \<open>The C library on strings\<close>

text \<open>
  A C string is the list of its characters before the terminating NUL. The functions
  below follow ISO C in the "C" locale; \<^verbatim>\<open>malloc\<close> is taken to succeed.
\<close>

definition isspace :: "char \<Rightarrow> bool" where
  "isspace c = (c = CHR '' '' \<or> c = CHR 0x09 \<or> c = CHR 0x0A \<or> c = CHR 0x0B
     \<or> c = CHR 0x0C \<or> c = CHR 0x0D)"

definition isdigit :: "char \<Rightarrow> bool" where
  "isdigit c = (48 \<le> (of_char c :: nat) \<and> (of_char c :: nat) \<le> 57)"

definition isxdigit :: "char \<Rightarrow> bool" where
  "isxdigit c = (isdigit c \<or> (65 \<le> (of_char c :: nat) \<and> (of_char c :: nat) \<le> 70)
     \<or> (97 \<le> (of_char c :: nat) \<and> (of_char c :: nat) \<le> 102))"

definition is_nchar :: "char \<Rightarrow> bool" where
  "is_nchar c = (isdigit c \<or> (65 \<le> (of_char c :: nat) \<and> (of_char c :: nat) \<le> 90)
     \<or> (97 \<le> (of_char c :: nat) \<and> (of_char c :: nat) \<le> 122) \<or> c = CHR ''_'')"

text \<open>
  Whether \<open>c\<close> is the character \<open>p\<close> of a pattern or, when \<open>p\<close> is a lower-case
  letter, its upper-case form.
\<close>

definition ci_match :: "char \<Rightarrow> char \<Rightarrow> bool" where
  "ci_match p c = (c = p \<or> (97 \<le> (of_char p :: nat) \<and> (of_char p :: nat) \<le> 122
     \<and> (of_char c :: nat) + 32 = of_char p))"

definition xdigit_val :: "char \<Rightarrow> nat" where
  "xdigit_val c = (if isdigit c then of_char c - 48
     else if (of_char c :: nat) \<le> 70 then of_char c - 55 else of_char c - 87)"

definition dec_val :: "string \<Rightarrow> nat" where
  "dec_val ds = foldl (\<lambda>a c. 10 * a + (of_char c - 48)) 0 ds"

definition hex_val :: "string \<Rightarrow> nat" where
  "hex_val ds = foldl (\<lambda>a c. 16 * a + xdigit_val c) 0 ds"

text \<open>Whether the string starts with the given lower-case word, ignoring case.\<close>

fun ci_prefix :: "string \<Rightarrow> string \<Rightarrow> bool" where
  "ci_prefix [] s = True"
| "ci_prefix (p # ps) [] = False"
| "ci_prefix (p # ps) (c # cs) = (ci_match p c \<and> ci_prefix ps cs)"

text \<open>An optional sign: whether it is \<^verbatim>\<open>-\<close>, and how many characters it takes.\<close>

definition scan_sign :: "string \<Rightarrow> bool \<times> nat" where
  "scan_sign s = (case s of [] \<Rightarrow> (False, 0)
     | c # r \<Rightarrow> if c = CHR ''-'' then (True, 1) else if c = CHR ''+'' then (False, 1)
                 else (False, 0))"

text \<open>
  An optional exponent part (\<open>m\<close> is \<^verbatim>\<open>e\<close> or \<^verbatim>\<open>p\<close>): the marker, an optional sign and
  at least one digit. The result is the exponent and the number of characters taken,
  \<open>(0, 0)\<close> when there is no exponent part.
\<close>

definition parse_exponent :: "char \<Rightarrow> string \<Rightarrow> int \<times> nat" where
  "parse_exponent m s = (case s of [] \<Rightarrow> (0, 0)
     | c # r \<Rightarrow>
        if \<not> ci_match m c then (0, 0)
        else (case scan_sign r of (neg, k) \<Rightarrow>
          (let ds = takeWhile isdigit (drop k r)
           in if ds = [] then (0, 0)
              else (if neg then - int (dec_val ds) else int (dec_val ds),
                    1 + k + length ds))))"

text \<open>
  A mantissa in the given base: digits with at most one radix character, at least one
  digit in all. The result is the integer and the fraction digits and the number of
  characters taken.
\<close>

definition scan_mantissa :: "(char \<Rightarrow> bool) \<Rightarrow> string \<Rightarrow> (string \<times> string \<times> nat) option" where
  "scan_mantissa isd s =
     (let ip = takeWhile isd s; r = dropWhile isd s;
          dot = (case r of [] \<Rightarrow> False | c # t \<Rightarrow> c = CHR ''.'');
          fp = (if dot then takeWhile isd (drop 1 r) else [])
      in if ip = [] \<and> fp = [] then None
         else Some (ip, fp, length ip + (if dot then 1 else 0) + length fp))"

definition parse_decimal :: "string \<Rightarrow> (double \<times> nat) option" where
  "parse_decimal s = (case scan_mantissa isdigit s of None \<Rightarrow> None
     | Some (ip, fp, n) \<Rightarrow>
        (case parse_exponent CHR ''e'' (drop n s) of (ex, k) \<Rightarrow>
           Some (round_double (of_nat (dec_val (ip @ fp)) * pow10 (ex - int (length fp))),
                 n + k)))"

definition parse_hex :: "string \<Rightarrow> (double \<times> nat) option" where
  "parse_hex s = (if \<not> ci_prefix ''0x'' s then None
     else (case scan_mantissa isxdigit (drop 2 s) of None \<Rightarrow> None
       | Some (ip, fp, n) \<Rightarrow>
          (case parse_exponent CHR ''p'' (drop (2 + n) s) of (ex, k) \<Rightarrow>
             Some (round_double (of_nat (hex_val (ip @ fp)) * pow2 (ex - 4 * int (length fp))),
                   2 + n + k))))"

definition parse_nan :: "string \<Rightarrow> (double \<times> nat) option" where
  "parse_nan s = (if \<not> ci_prefix ''nan'' s then None
     else (case drop 3 s of
         c # r \<Rightarrow>
           (if c = CHR ''('' then
              (let cs = takeWhile is_nchar r
               in case dropWhile is_nchar r of
                    d # t \<Rightarrow> if d = CHR '')'' then Some (NaN False, 3 + 1 + length cs + 1)
                              else Some (NaN False, 3)
                  | [] \<Rightarrow> Some (NaN False, 3))
            else Some (NaN False, 3))
       | [] \<Rightarrow> Some (NaN False, 3)))"

text \<open>The magnitude after the sign: one of the four forms of the subject sequence.\<close>

definition parse_magnitude :: "string \<Rightarrow> (double \<times> nat) option" where
  "parse_magnitude s =
     (if ci_prefix ''infinity'' s then Some (PosInf, 8)
      else if ci_prefix ''inf'' s then Some (PosInf, 3)
      else (case parse_nan s of Some r \<Rightarrow> Some r
        | None \<Rightarrow> (case parse_hex s of Some r \<Rightarrow> Some r
          | None \<Rightarrow> parse_decimal s)))"

text \<open>
  \<^verbatim>\<open>strtod(s, &end)\<close>: the value and \<open>end - s\<close>, the number of characters converted;
  \<open>0\<close> characters when no conversion is performed (then \<open>end = s\<close>).
\<close>

definition strtod :: "string \<Rightarrow> double \<times> nat" where
  "strtod s =
     (let ws = length (takeWhile isspace s)
      in case scan_sign (drop ws s) of (neg, k) \<Rightarrow>
        (case parse_magnitude (drop (ws + k) s) of
           None \<Rightarrow> (Finite 0, 0)
         | Some (v, n) \<Rightarrow> (if neg then dbl_neg v else v, ws + k + n)))"

text \<open>
  \<^verbatim>\<open>strtol(s, &end, 10)\<close> with a 64-bit \<^verbatim>\<open>long\<close>: the value, clamped to the range of
  \<^verbatim>\<open>long\<close>, and the number of characters converted.
\<close>

definition strtol :: "string \<Rightarrow> int \<times> nat" where
  "strtol s =
     (let ws = length (takeWhile isspace s)
      in case scan_sign (drop ws s) of (neg, k) \<Rightarrow>
        (let ds = takeWhile isdigit (drop (ws + k) s)
         in if ds = [] then (0, 0)
            else (let v = (if neg then - int (dec_val ds) else int (dec_val ds))
                  in (max (- (2 ^ 63)) (min (2 ^ 63 - 1) v), ws + k + length ds))))"

text \<open>Decimal digits of a natural number, as \<^verbatim>\<open>%d\<close> and \<^verbatim>\<open>%f\<close> print them.\<close>

fun dec_str :: "nat \<Rightarrow> string" where
  "dec_str n = (if n < 10 then [''0123456789'' ! n]
     else dec_str (n div 10) @ [''0123456789'' ! (n mod 10)])"

definition fmt_d :: "int \<Rightarrow> string" where
  "fmt_d i = (if i < 0 then CHR ''-'' # dec_str (nat (- i)) else dec_str (nat i))"

text \<open>
  The conversion \<^verbatim>\<open>%f\<close>: six digits after the point, the exact value rounded to
  nearest, ties to even. A NaN is printed with the minus sign when its sign bit is set,
  as glibc prints it.
\<close>

definition fmt_f :: "double \<Rightarrow> string" where
  "fmt_f d = (case d of
       NaN s \<Rightarrow> (if s then ''-nan'' else ''nan'')
     | PosInf \<Rightarrow> ''inf''
     | NegInf \<Rightarrow> ''-inf''
     | NegZero \<Rightarrow> ''-0.000000''
     | Finite q \<Rightarrow>
         (let n = nat (round_half_even (\<bar>q\<bar> * 1000000));
              fr = dec_str (n mod 1000000)
          in (if q < 0 then ''-'' else '''') @ dec_str (n div 1000000) @ ''.''
             @ take (6 - length fr) ''000000'' @ fr))"

text \<open>\<^verbatim>\<open>snprintf(buf, size, ...)\<close> keeps at most \<open>size - 1\<close> characters of the output.\<close>

definition snprintf :: "nat \<Rightarrow> string \<Rightarrow> string" where
  "snprintf n s = take (n - 1) s"

text \<open>
  The tokens that repeated calls of \<^verbatim>\<open>strtok(..., "+")\<close> return: the maximal non-empty
  runs of characters other than \<^verbatim>\<open>+\<close>. The second argument is the token being read.
\<close>

fun strtok_plus :: "string \<Rightarrow> string \<Rightarrow> string list" where
  "strtok_plus [] cur = (if cur = [] then [] else [cur])"
| "strtok_plus (c # cs) cur =
     (if c = CHR ''+'' then (if cur = [] then strtok_plus cs [] else cur # strtok_plus cs [])
      else strtok_plus cs (cur @ [c]))"

section \<open>The data model of model.c\<close>

datatype CellType = TEXT | NUMBER | FORMULA

text \<open>
  A \<^verbatim>\<open>Cell*\<close> is the offset of the cell from \<^verbatim>\<open>&spreadsheet[0][0]\<close>, in cells: the
  array \<^verbatim>\<open>spreadsheet[NUM_ROWS][NUM_COLS]\<close> is one block of \<open>NUM_ROWS * NUM_COLS\<close>
  cells, row after row, and \<^verbatim>\<open>get_cell_reference\<close> itself reads a pointer that way.
\<close>

type_synonym cell_ptr = int

text \<open>
  The struct \<^verbatim>\<open>Terms\<close>: a term with \<^verbatim>\<open>cell == NULL\<close> is a constant and only its field
  \<^verbatim>\<open>constant\<close> is read; a term with \<^verbatim>\<open>cell != NULL\<close> is a cell reference and only its
  field \<^verbatim>\<open>cell\<close> is written and read.
\<close>

datatype Terms = Constant double | CellPtr cell_ptr

text \<open>
  The struct \<^verbatim>\<open>Formula\<close>: the list holds \<^verbatim>\<open>terms[0 .. num_terms - 1]\<close>, so
  \<^verbatim>\<open>num_terms\<close> is its length.
\<close>

record Formula =
  terms :: "Terms list"

abbreviation num_terms :: "Formula \<Rightarrow> nat" where
  "num_terms f \<equiv> length (terms f)"

text \<open>
  The union \<^verbatim>\<open>CellValue\<close> with the member that was written last; a pointer member is
  \<open>None\<close> when it is \<^verbatim>\<open>NULL\<close>. The formula a cell points to is owned by that cell alone,
  so the pointer is modelled by the formula itself.
\<close>

datatype CellValue = Text "string option" | Number double | FormulaPtr "Formula option"

datatype EvaluationState = NOT_EVALUATED | EVALUATING | EVALUATED

record Cell =
  cell_type :: CellType
  cell_value :: CellValue
  cell_state :: EvaluationState

type_synonym spreadsheet = "cell_ptr \<Rightarrow> Cell"

text \<open>What the C code does where the model cannot go on: undefined behaviour.\<close>

datatype error =
    NullDereference
  | OutOfBounds
  | BufferOverflow
  | InactiveUnionMember
  | DivisionByZero

definition in_spreadsheet :: "config \<Rightarrow> cell_ptr \<Rightarrow> bool" where
  "in_spreadsheet cfg p = (0 \<le> p \<and> p < int (NUM_ROWS cfg * NUM_COLS cfg))"

text \<open>Static storage is zero-initialised: \<^verbatim>\<open>TEXT\<close>, \<^verbatim>\<open>NULL\<close>, \<^verbatim>\<open>NOT_EVALUATED\<close>.\<close>

definition zero_cell :: Cell where
  "zero_cell = \<lparr>cell_type = TEXT, cell_value = Text None, cell_state = NOT_EVALUATED\<rparr>"

definition zero_spreadsheet :: spreadsheet where
  "zero_spreadsheet = (\<lambda>p. zero_cell)"

section \<open>evaluate_formula\<close>

text \<open>
  The loop of \<^verbatim>\<open>evaluate_formula\<close> over the terms that are left, with the running
  \<^verbatim>\<open>answer\<close>; the recursive call on the formula of a referenced cell starts a new loop
  with answer \<open>0.0\<close>. The result is the returned double and the spreadsheet with the
  evaluation states the call leaves behind.
\<close>

function (domintros) evaluate_loop ::
  "config \<Rightarrow> spreadsheet \<Rightarrow> Terms list \<Rightarrow> double \<Rightarrow> error + (double \<times> spreadsheet)" where
  "evaluate_loop cfg g [] answer = Inr (answer, g)"
| "evaluate_loop cfg g (Constant c # ts) answer = evaluate_loop cfg g ts (dbl_add answer c)"
| "evaluate_loop cfg g (CellPtr p # ts) answer =
     (if \<not> in_spreadsheet cfg p then Inl OutOfBounds
      else if cell_state (g p) = EVALUATING then Inr (NaN False, g)
      else if cell_type (g p) = FORMULA then
        (case cell_value (g p) of
           FormulaPtr fo \<Rightarrow>
             (case fo of
                None \<Rightarrow> Inl NullDereference
              | Some f \<Rightarrow>
                 (case evaluate_loop cfg (g(p := (g p)\<lparr>cell_state := EVALUATING\<rparr>))
                         (terms f) (Finite 0) of
                    Inl e \<Rightarrow> Inl e
                  | Inr (formula_result, g') \<Rightarrow>
                      if isinf formula_result then Inr (PosInf, g')
                      else evaluate_loop cfg (g'(p := (g' p)\<lparr>cell_state := EVALUATED\<rparr>)) ts
                             (dbl_add answer formula_result)))
         | _ \<Rightarrow> Inl InactiveUnionMember)
      else if cell_type (g p) = NUMBER then
        (case cell_value (g p) of
           Number n \<Rightarrow>
             evaluate_loop cfg (g(p := (g p)\<lparr>cell_state := EVALUATED\<rparr>)) ts (dbl_add answer n)
         | _ \<Rightarrow> Inl InactiveUnionMember)
      else Inr (PosInf, g))"
  by pat_completeness auto

text \<open>The cells of the array that are not in state \<^verbatim>\<open>EVALUATING\<close>.\<close>

definition idle :: "config \<Rightarrow> spreadsheet \<Rightarrow> cell_ptr set" where
  "idle cfg g = {p. in_spreadsheet cfg p \<and> cell_state (g p) \<noteq> EVALUATING}"

text \<open>
  \<^verbatim>\<open>evaluate_formula(formula)\<close>: reading \<^verbatim>\<open>formula->num_terms\<close> through a null pointer
  is undefined.
\<close>

definition evaluate_formula ::
  "config \<Rightarrow> spreadsheet \<Rightarrow> Formula option \<Rightarrow> error + (double \<times> spreadsheet)" where
  "evaluate_formula cfg g formula =
     (case formula of
        None \<Rightarrow> Inl NullDereference
      | Some f \<Rightarrow> evaluate_loop cfg g (terms f) (Finite 0))"

section \<open>Cell references\<close>

text \<open>
  The value of a \<^verbatim>\<open>char\<close> in an expression: plain \<^verbatim>\<open>char\<close> is signed (as on x86-64),
  so the bytes from 128 are negative. \<^verbatim>\<open>COL\<close> is taken to hold every \<^verbatim>\<open>int\<close>.
\<close>

definition char_to_int :: "char \<Rightarrow> int" where
  "char_to_int c = (if (of_char c :: nat) < 128 then int (of_char c) else int (of_char c) - 256)"

text \<open>
  \<^verbatim>\<open>get_cell_by_reference\<close>: \<open>None\<close> is the \<^verbatim>\<open>NULL\<close> result. The column is
  \<^verbatim>\<open>reference[0] - 'A'\<close> and is not checked against \<^verbatim>\<open>NUM_COLS\<close>; the result is
  \<^verbatim>\<open>&spreadsheet[row][column]\<close>, the cell at offset \<open>row * NUM_COLS + column\<close>.
\<close>

definition get_cell_by_reference :: "config \<Rightarrow> string \<Rightarrow> cell_ptr option" where
  "get_cell_by_reference cfg reference =
     (if length reference < 2 then None
      else if 97 \<le> char_to_int (reference ! 0) \<and> char_to_int (reference ! 0) \<le> 122
        then None
      else
        (let column = char_to_int (reference ! 0) - 65
         in case strtol (drop 1 reference) of (row, n) \<Rightarrow>
           if drop (1 + n) reference \<noteq> [] \<or> row < 1 \<or> row > int (NUM_ROWS cfg) then None
           else Some ((row - 1) * int (NUM_COLS cfg) + column)))"

text \<open>The C operators \<^verbatim>\<open>/\<close> and \<^verbatim>\<open>%\<close> on integers truncate towards zero.\<close>

definition c_div :: "int \<Rightarrow> int \<Rightarrow> int" where
  "c_div a b = sgn a * sgn b * (\<bar>a\<bar> div \<bar>b\<bar>)"

definition c_mod :: "int \<Rightarrow> int \<Rightarrow> int" where
  "c_mod a b = sgn a * (\<bar>a\<bar> mod \<bar>b\<bar>)"

text \<open>The C string in a buffer: the characters before the first NUL.\<close>

definition c_string :: "string \<Rightarrow> string" where
  "c_string s = takeWhile (\<lambda>c. c \<noteq> CHR 0x00) s"

text \<open>
  \<^verbatim>\<open>get_cell_reference\<close>: \<^verbatim>\<open>sprintf\<close> writes \<^verbatim>\<open>%c%d\<close> and the terminating NUL into a
  buffer of 4 bytes. \<^verbatim>\<open>%c\<close> prints its argument converted to \<^verbatim>\<open>unsigned char\<close>.
\<close>

definition get_cell_reference :: "config \<Rightarrow> cell_ptr \<Rightarrow> error + string" where
  "get_cell_reference cfg cell =
     (if NUM_COLS cfg = 0 then Inl DivisionByZero
      else
        (let row = c_div cell (int (NUM_COLS cfg));
             col = c_mod cell (int (NUM_COLS cfg));
             reference = char_of (col + 65) # fmt_d (row + 1)
         in if length reference + 1 > 4 then Inl BufferOverflow
            else Inr (c_string reference)))"

section \<open>string_to_formula\<close>

text \<open>
  The loop of \<^verbatim>\<open>string_to_formula\<close> over the tokens of \<^verbatim>\<open>strtok\<close>; \<open>acc\<close> is
  \<^verbatim>\<open>formula->terms[0 .. num_terms - 1]\<close>. \<open>Inr None\<close> is the \<^verbatim>\<open>NULL\<close> result. The
  store to \<^verbatim>\<open>formula->terms[formula->num_terms++]\<close> has no bound check: with
  \<open>MAX_TERMS\<close> terms stored it writes behind the array.
\<close>

fun string_to_formula_loop ::
  "config \<Rightarrow> string list \<Rightarrow> Terms list \<Rightarrow> error + Formula option" where
  "string_to_formula_loop cfg [] acc = Inr (Some \<lparr>terms = acc\<rparr>)"
| "string_to_formula_loop cfg (split_term # rest) acc =
     (case strtod split_term of (number, n) \<Rightarrow>
        (if n \<noteq> 0 then
           (if length acc \<ge> MAX_TERMS then Inl OutOfBounds
            else string_to_formula_loop cfg rest (acc @ [Constant number]))
         else
           (case get_cell_by_reference cfg split_term of
              None \<Rightarrow> Inr None
            | Some cell \<Rightarrow>
               (if length acc \<ge> MAX_TERMS then Inl OutOfBounds
                else string_to_formula_loop cfg rest (acc @ [CellPtr cell])))))"

text \<open>\<^verbatim>\<open>string_to_formula(text)\<close> splits \<^verbatim>\<open>text + 1\<close>, the text after its first character.\<close>

definition string_to_formula :: "config \<Rightarrow> string \<Rightarrow> error + Formula option" where
  "string_to_formula cfg text = string_to_formula_loop cfg (strtok_plus (drop 1 text) []) []"

section \<open>formula_to_string\<close>

text \<open>
  \<^verbatim>\<open>strcat\<close> into the buffer of \<open>CELL_DISPLAY_WIDTH + 1\<close> bytes that \<^verbatim>\<open>formula_to_string\<close>
  allocates: the string and its terminating NUL must fit.
\<close>

definition strcat :: "config \<Rightarrow> string \<Rightarrow> string \<Rightarrow> error + string" where
  "strcat cfg text s =
     (if length (text @ s) + 1 > CELL_DISPLAY_WIDTH cfg + 1 then Inl BufferOverflow
      else Inr (text @ s))"

definition term_to_string :: "config \<Rightarrow> Terms \<Rightarrow> error + string" where
  "term_to_string cfg term =
     (case term of
        CellPtr cell \<Rightarrow> get_cell_reference cfg cell
      | Constant c \<Rightarrow> Inr (snprintf 20 (fmt_f c)))"

fun formula_to_string_loop :: "config \<Rightarrow> Terms list \<Rightarrow> string \<Rightarrow> error + string" where
  "formula_to_string_loop cfg [] text = Inr text"
| "formula_to_string_loop cfg (term # ts) text =
     (case term_to_string cfg term of
        Inl e \<Rightarrow> Inl e
      | Inr s \<Rightarrow>
         (case strcat cfg text s of
            Inl e \<Rightarrow> Inl e
          | Inr text1 \<Rightarrow>
             (if ts \<noteq> [] then
                (case strcat cfg text1 ''+'' of
                   Inl e \<Rightarrow> Inl e
                 | Inr text2 \<Rightarrow> formula_to_string_loop cfg ts text2)
              else formula_to_string_loop cfg ts text1)))"

definition formula_to_string :: "config \<Rightarrow> Formula option \<Rightarrow> error + string" where
  "formula_to_string cfg formula =
     (if CELL_DISPLAY_WIDTH cfg + 1 < 2 then Inl BufferOverflow
      else case formula of
        None \<Rightarrow> Inl NullDereference
      | Some f \<Rightarrow> formula_to_string_loop cfg (terms f) ''='')"

section \<open>The operations on the spreadsheet\<close>

text \<open>
  \<^verbatim>\<open>update_cell_display\<close> belongs to the interface, which is not part of \<^verbatim>\<open>model.c\<close>:
  the model records its calls, the latest last.
\<close>

record model =
  sheet :: spreadsheet
  display :: "(nat \<times> nat \<times> string) list"

definition update_cell_display :: "nat \<Rightarrow> nat \<Rightarrow> string \<Rightarrow> model \<Rightarrow> model" where
  "update_cell_display row col text m = m\<lparr>display := display m @ [(row, col, text)]\<rparr>"

text \<open>The offset of \<^verbatim>\<open>spreadsheet[row][col]\<close>.\<close>

definition cell_at :: "config \<Rightarrow> nat \<Rightarrow> nat \<Rightarrow> cell_ptr" where
  "cell_at cfg row col = int (row * NUM_COLS cfg + col)"

definition model_init :: "config \<Rightarrow> model \<Rightarrow> model" where
  "model_init cfg m = m\<lparr>sheet := (\<lambda>p. if in_spreadsheet cfg p
       then (sheet m p)\<lparr>cell_type := TEXT, cell_value := Text None\<rparr> else sheet m p)\<rparr>"

text \<open>
  \<^verbatim>\<open>set_cell_value\<close>, with \<^verbatim>\<open>ROW\<close> and \<^verbatim>\<open>COL\<close> taken as natural numbers. An error
  comes with the model as it is when the undefined behaviour happens. \<^verbatim>\<open>text[0]\<close> of
  the empty string is the terminating NUL. \<^verbatim>\<open>free\<close> changes nothing that the model
  holds: a formula is owned by its cell and is replaced with the value of the cell.
\<close>

definition set_cell_value ::
  "config \<Rightarrow> nat \<Rightarrow> nat \<Rightarrow> string \<Rightarrow> model \<Rightarrow> (error \<times> model) + model" where
  "set_cell_value cfg row col text m =
     (let p = cell_at cfg row col in
      if \<not> in_spreadsheet cfg p then Inl (OutOfBounds, m)
      else if text \<noteq> [] \<and> text ! 0 = CHR ''='' then
        (case string_to_formula cfg text of
           Inl e \<Rightarrow> Inl (e, m\<lparr>sheet := (sheet m)(p := (sheet m p)\<lparr>cell_type := FORMULA\<rparr>)\<rparr>)
         | Inr formula \<Rightarrow>
            (let m1 = m\<lparr>sheet := (sheet m)(p := (sheet m p)
                        \<lparr>cell_type := FORMULA, cell_value := FormulaPtr formula\<rparr>)\<rparr>;
                 m2 = (if formula = None
                       then update_cell_display row col ''Error: Failed to parse formula'' m1
                       else m1)
             in case evaluate_formula cfg (sheet m2) formula of
                  Inl e \<Rightarrow> Inl (e, m2)
                | Inr (result, g) \<Rightarrow>
                    (let m3 = m2\<lparr>sheet := g\<rparr> in
                     if isnan result then
                       Inr (update_cell_display row col
                              ''Error: circular dependency detected'' m3)
                     else if isinf result then
                       Inr (update_cell_display row col
                              ''Error: cell contains non-numeric value'' m3)
                     else
                       Inr (update_cell_display row col
                              (snprintf (CELL_DISPLAY_WIDTH cfg + 1) (fmt_f result)) m3))))
      else
        (case strtod text of (number, n) \<Rightarrow>
           if n \<noteq> 0 then
             Inr (update_cell_display row col text
                    (m\<lparr>sheet := (sheet m)(p := (sheet m p)
                        \<lparr>cell_type := NUMBER, cell_value := Number number\<rparr>)\<rparr>))
           else
             Inr (update_cell_display row col text
                    (m\<lparr>sheet := (sheet m)(p := (sheet m p)
                        \<lparr>cell_type := TEXT, cell_value := Text (Some text)\<rparr>)\<rparr>))))"

definition clear_cell :: "config \<Rightarrow> nat \<Rightarrow> nat \<Rightarrow> model \<Rightarrow> (error \<times> model) + model" where
  "clear_cell cfg row col m =
     (let p = cell_at cfg row col in
      if \<not> in_spreadsheet cfg p then Inl (OutOfBounds, m)
      else Inr (update_cell_display row col ''''
             (m\<lparr>sheet := (sheet m)(p := (sheet m p)
                 \<lparr>cell_type := TEXT, cell_value := Text None\<rparr>)\<rparr>)))"

definition get_textual_value :: "config \<Rightarrow> nat \<Rightarrow> nat \<Rightarrow> model \<Rightarrow> error + string" where
  "get_textual_value cfg row col m =
     (let p = cell_at cfg row col in
      if \<not> in_spreadsheet cfg p then Inl OutOfBounds
      else if cell_type (sheet m p) = FORMULA then
        (case cell_value (sheet m p) of
           FormulaPtr formula \<Rightarrow> formula_to_string cfg formula
         | _ \<Rightarrow> Inl InactiveUnionMember)
      else if cell_type (sheet m p) = NUMBER then
        (case cell_value (sheet m p) of
           Number number \<Rightarrow> Inr (snprintf (CELL_DISPLAY_WIDTH cfg + 1) (fmt_f number))
         | _ \<Rightarrow> Inl InactiveUnionMember)
      else
        (case cell_value (sheet m p) of
           Text t \<Rightarrow> (case t of Some s \<Rightarrow> Inr s | None \<Rightarrow> Inr '''')
         | _ \<Rightarrow> Inl InactiveUnionMember))"

section \<open>Sessions\<close>

text \<open>
  A session is a list of edits \<open>(row, col, text)\<close>, each a call of \<^verbatim>\<open>set_cell_value\<close>, on
  the model as \<^verbatim>\<open>model_init\<close> leaves the zero-initialised array. It stops at the first
  undefined behaviour.
\<close>

definition start :: "config \<Rightarrow> model" where
  "start cfg = model_init cfg \<lparr>sheet = zero_spreadsheet, display = []\<rparr>"

fun session :: "config \<Rightarrow> (nat \<times> nat \<times> string) list \<Rightarrow> model \<Rightarrow> (error \<times> model) + model" where
  "session cfg [] m = Inr m"
| "session cfg ((row, col, text) # edits) m =
     (case set_cell_value cfg row col text m of
        Inl e \<Rightarrow> Inl e
      | Inr m' \<Rightarrow> session cfg edits m')"

text \<open>The string of the latest call of \<^verbatim>\<open>update_cell_display\<close> for a cell, if any.\<close>

definition shown :: "nat \<Rightarrow> nat \<Rightarrow> model \<Rightarrow> string option" where
  "shown row col m =
     (case filter (\<lambda>(r, c, s). r = row \<and> c = col) (display m) of
        [] \<Rightarrow> None
      | d # ds \<Rightarrow> Some (snd (snd (last (d # ds)))))"

section \<open>Examples and notions for the statements\<close>

text \<open>
  The configuration of the examples: the 26 columns of the specification's scenarios,
  10 rows and a display width of 20 characters.
\<close>

definition example_config :: config where
  "example_config = \<lparr>NUM_ROWS = 10, NUM_COLS = 26, CELL_DISPLAY_WIDTH = 20\<rparr>"

text \<open>What a session displays last for a cell; nothing when the session ends in an error.\<close>

definition displayed :: "nat \<Rightarrow> nat \<Rightarrow> (error \<times> model) + model \<Rightarrow> string option" where
  "displayed row col r = (case r of Inl e \<Rightarrow> None | Inr m \<Rightarrow> shown row col m)"

text \<open>The strings joined by \<^verbatim>\<open>+\<close>, as \<^verbatim>\<open>formula_to_string\<close> joins the terms.\<close>

fun join_plus :: "string list \<Rightarrow> string" where
  "join_plus [] = []"
| "join_plus (x # xs) = x @ (if xs = [] then [] else CHR ''+'' # join_plus xs)"

text \<open>
  The term that the text of a term is parsed to: a cell reference is read back as it
  is, a constant as the number that its text of at most 19 characters, with six
  decimals, denotes.
\<close>

fun reread :: "Terms \<Rightarrow> Terms" where
  "reread (CellPtr p) = CellPtr p"
| "reread (Constant c) = Constant (fst (strtod (snprintf 20 (fmt_f c))))"

text \<open>A number rounded to six decimals, to nearest, ties to even: what \<^verbatim>\<open>%f\<close> prints of it.\<close>

definition six_decimals :: "rat \<Rightarrow> rat" where
  "six_decimals q = of_int (round_half_even (q * 1000000)) / 1000000"

text \<open>
  Whether \<^verbatim>\<open>snprintf(number, 20, "%f", ...)\<close> keeps the text of a finite constant in full:
  at most 19 characters, that is at most twelve digits before the point, and eleven
  after a minus sign.
\<close>

definition uncut :: "rat \<Rightarrow> bool" where
  "uncut q = (if q < 0 then - (10 ^ 11) < six_decimals q else six_decimals q < 10 ^ 12)"

text \<open>Whether a double is a finite number (or \<open>-0.0\<close>) less than \<open>10\<^sup>-\<^sup>6\<close> away from \<open>q\<close>.\<close>

definition close_to :: "double \<Rightarrow> rat \<Rightarrow> bool" where
  "close_to d q = (case d of Finite v \<Rightarrow> \<bar>v - q\<bar> < 1 / 1000000
     | NegZero \<Rightarrow> \<bar>q\<bar> < 1 / 1000000 | _ \<Rightarrow> False)"

text \<open>
  What the constant \<open>c\<close> of a formula becomes when the formula is rendered and the text
  is parsed again, in terms of numbers. A NaN (with its sign), an infinity and \<open>-0.0\<close>
  stay. A finite constant whose text is kept in full becomes the double nearest to the
  constant rounded to six decimals (\<open>-0.0\<close> when a negative constant is rounded to zero):
  that is less than \<open>10\<^sup>-\<^sup>6\<close> away from the constant, and it is the constant itself if
  the constant is at least \<open>2\<^sup>3\<^sup>3\<close> in magnitude or is the double nearest to a number of at
  most six decimals. A finite constant whose text is cut becomes what the 19 characters
  left of the text denote.
\<close>

definition constant_reread_as :: "double \<Rightarrow> double \<Rightarrow> bool" where
  "constant_reread_as c c' = (case c of
       Finite q \<Rightarrow>
         (if uncut q then
            c' = (if q < 0 \<and> six_decimals q = 0 then NegZero
                  else round_double (six_decimals q))
            \<and> close_to c' q
            \<and> (2 ^ 33 \<le> \<bar>q\<bar> \<or> (\<exists>m::int. c = round_double (of_int m / 1000000))
                \<longrightarrow> c' = c)
          else c' = fst (strtod (snprintf 20 (fmt_f c))))
     | _ \<Rightarrow> c' = c)"

text \<open>A cell reference is read back as the same reference, a constant as above.\<close>

fun reread_as :: "Terms \<Rightarrow> Terms \<Rightarrow> bool" where
  "reread_as (CellPtr p) t' = (t' = CellPtr p)"
| "reread_as (Constant c) (Constant c') = constant_reread_as c c'"
| "reread_as (Constant c) (CellPtr p) = False"

text \<open>
  The numbers that have a binary64 representation: below \<open>2\<^sup>1\<^sup>0\<^sup>2\<^sup>4\<close> in magnitude, and a
  multiple of the unit in the last of the 53 bits, that is of \<open>2 ^ (e - 52)\<close> for the binary
  exponent \<open>e\<close> of the number, or for \<open>e = -1022\<close> below that.
\<close>

definition binary64 :: "rat \<Rightarrow> bool" where
  "binary64 q = (\<bar>q\<bar> < 2 ^ 1024
     \<and> (\<exists>M::int. \<bar>q\<bar> = of_int M * pow2 (max (ilog2 \<bar>q\<bar>) (- 1022) - 52)))"

text \<open>A double that holds such a number, or a zero, an infinity or a NaN.\<close>

definition is_double :: "double \<Rightarrow> bool" where
  "is_double d = (case d of Finite q \<Rightarrow> binary64 q | _ \<Rightarrow> True)"

chapter \<open>Properties\<close>

section \<open>Unfolding recursive library functions on literals\<close>

declare log2floor.simps [simp del]

lemma log2floor_numeral [simp]:
  "log2floor (numeral k) =
     (if (numeral k :: nat) < 2 then 0 else Suc (log2floor (numeral k div 2)))"
  "log2floor 0 = 0"
  "log2floor (Suc 0) = 0"
  by (simp_all add: log2floor.simps [of "numeral k"] log2floor.simps [of 0]
        log2floor.simps [of "Suc 0"])

lemma floor_rat_divide_numeral [simp]:
  "\<lfloor>numeral a / numeral b :: rat\<rfloor> = numeral a div numeral b"
  "\<lfloor>1 / numeral b :: rat\<rfloor> = 1 div numeral b"
  by (metis floor_divide_of_int_eq of_int_numeral,
      metis floor_divide_of_int_eq of_int_numeral of_int_1)

declare dec_str.simps [simp del]

lemma dec_str_numeral [simp]:
  "dec_str (numeral k) =
     (if (numeral k :: nat) < 10 then [''0123456789'' ! numeral k]
      else dec_str (numeral k div 10) @ [''0123456789'' ! (numeral k mod 10)])"
  "dec_str 0 = ''0''"
  "dec_str (Suc 0) = ''1''"
  by (simp_all add: dec_str.simps [of "numeral k"] dec_str.simps [of 0]
        dec_str.simps [of "Suc 0"])

section \<open>Termination of evaluate_formula\<close>

lemma finite_idle: "finite (idle cfg g)"
proof -
  have "idle cfg g \<subseteq> {0 ..< int (NUM_ROWS cfg * NUM_COLS cfg)}"
    by (auto simp: idle_def in_spreadsheet_def)
  then show ?thesis
    by (rule finite_subset) simp
qed

lemma idle_mark_evaluating:
  "idle cfg (g(p := c\<lparr>cell_state := EVALUATING\<rparr>)) = idle cfg g - {p}"
  by (auto simp: idle_def)

lemma idle_mark_evaluated:
  "in_spreadsheet cfg p \<Longrightarrow>
   idle cfg (g(p := c\<lparr>cell_state := EVALUATED\<rparr>)) = insert p (idle cfg g)"
  by (auto simp: idle_def)

lemma card_idle_mark_evaluating:
  assumes "in_spreadsheet cfg p" and "cell_state (g p) \<noteq> EVALUATING"
  shows "card (idle cfg (g(p := c\<lparr>cell_state := EVALUATING\<rparr>))) < card (idle cfg g)"
proof -
  have "p \<in> idle cfg g"
    using assms by (simp add: idle_def)
  then show ?thesis
    unfolding idle_mark_evaluating by (rule card_Diff1_less [OF finite_idle])
qed

lemma idle_number:
  assumes "in_spreadsheet cfg p" and "cell_state (g p) \<noteq> EVALUATING"
  shows "idle cfg (g(p := c\<lparr>cell_state := EVALUATED\<rparr>)) = idle cfg g"
proof -
  have "p \<in> idle cfg g"
    using assms by (simp add: idle_def)
  then show ?thesis
    using assms(1) by (simp add: idle_mark_evaluated insert_absorb)
qed

lemma idle_restore:
  assumes "in_spreadsheet cfg p" and "cell_state (g p) \<noteq> EVALUATING"
    and "idle cfg g2 = idle cfg (g(p := c\<lparr>cell_state := EVALUATING\<rparr>))"
  shows "idle cfg (g2(p := c'\<lparr>cell_state := EVALUATED\<rparr>)) = idle cfg g"
proof -
  have "p \<in> idle cfg g"
    using assms(1,2) by (simp add: idle_def)
  moreover have "idle cfg g2 = idle cfg g - {p}"
    using assms(3) by (simp add: idle_mark_evaluating)
  ultimately show ?thesis
    using assms(1) by (simp add: idle_mark_evaluated insert_absorb)
qed

text \<open>
  A call that returns something other than an infinity leaves every cell it marked
  \<^verbatim>\<open>EVALUATING\<close> marked \<^verbatim>\<open>EVALUATED\<close>.
\<close>

lemma evaluate_loop_idle_dom:
  "evaluate_loop_dom (cfg, g, ts, a) \<Longrightarrow> evaluate_loop cfg g ts a = Inr (r, g')
   \<Longrightarrow> \<not> isinf r \<Longrightarrow> idle cfg g' = idle cfg g"
proof (induction cfg g ts a arbitrary: r g' rule: evaluate_loop.pinduct)
  case (1 cfg g answer)
  then show ?case
    by (simp add: evaluate_loop.psimps)
next
  case (2 cfg g c ts answer)
  then show ?case
    by (simp add: evaluate_loop.psimps)
next
  case (3 cfg g p ts answer)
  note eq = evaluate_loop.psimps(3) [OF "3.hyps"]
  note res = "3.prems"(1)
  note fin = "3.prems"(2)
  show ?case
  proof (cases "in_spreadsheet cfg p")
    case False
    then show ?thesis
      using res by (simp add: eq)
  next
    case inside: True
    then have nn: "\<not> \<not> in_spreadsheet cfg p"
      by simp
    show ?thesis
    proof (cases "cell_state (g p) = EVALUATING")
      case True
      then show ?thesis
        using res inside by (simp add: eq)
    next
      case idle: False
      show ?thesis
      proof (cases "cell_type (g p)")
        case TEXT
        then have "r = PosInf"
          using res inside idle by (simp add: eq)
        then show ?thesis
          using fin by (simp add: isinf_def)
      next
        case NUMBER
        then have nf: "cell_type (g p) \<noteq> FORMULA"
          by simp
        show ?thesis
        proof (cases "cell_value (g p)")
          case (Number n)
          let ?g = "g(p := (g p)\<lparr>cell_state := EVALUATED\<rparr>)"
          have "evaluate_loop cfg ?g ts (dbl_add answer n) = Inr (r, g')"
            using res inside idle NUMBER Number by (simp add: eq)
          then have "idle cfg g' = idle cfg ?g"
            using fin by (rule "3.IH"(3) [OF nn idle nf NUMBER Number])
          also have "\<dots> = idle cfg g"
            using inside idle by (rule idle_number [of cfg p g])
          finally show ?thesis .
        qed (use res inside idle NUMBER in \<open>simp_all add: eq\<close>)
      next
        case FORMULA
        show ?thesis
        proof (cases "cell_value (g p)")
          case (FormulaPtr fo)
          show ?thesis
          proof (cases fo)
            case None
            then show ?thesis
              using res inside idle FORMULA FormulaPtr by (simp add: eq)
          next
            case (Some f)
            let ?g1 = "g(p := (g p)\<lparr>cell_state := EVALUATING\<rparr>)"
            note known = inside idle FORMULA FormulaPtr Some
            show ?thesis
            proof (cases "evaluate_loop cfg ?g1 (terms f) (Finite 0)")
              case (Inl e)
              then show ?thesis
                using res known by (simp add: eq)
            next
              case (Inr b)
              obtain x g2 where b: "b = (x, g2)"
                by (cases b)
              have ninf: "\<not> isinf x"
              proof
                assume "isinf x"
                then have "r = PosInf"
                  using res known Inr b by (simp add: eq)
                then show False
                  using fin by (simp add: isinf_def)
              qed
              let ?g3 = "g2(p := (g2 p)\<lparr>cell_state := EVALUATED\<rparr>)"
              have rest: "evaluate_loop cfg ?g3 ts (dbl_add answer x) = Inr (r, g')"
                using res known Inr b ninf by (simp add: eq)
              have sub: "evaluate_loop cfg ?g1 (terms f) (Finite 0) = Inr (x, g2)"
                using Inr b by simp
              have "idle cfg g2 = idle cfg ?g1"
                using sub ninf by (rule "3.IH"(1) [OF nn idle FORMULA FormulaPtr Some])
              then have "idle cfg ?g3 = idle cfg g"
                by (rule idle_restore [of cfg p g, OF inside idle])
              moreover have "idle cfg g' = idle cfg ?g3"
                using rest fin
                by (rule "3.IH"(2) [OF nn idle FORMULA FormulaPtr Some Inr b [symmetric] ninf])
              ultimately show ?thesis by simp
            qed
          qed
        qed (use res inside idle FORMULA in \<open>simp_all add: eq\<close>)
      qed
    qed
  qed
qed

termination evaluate_loop
proof (relation "inv_image (less_than <*lex*> less_than)
      (\<lambda>(cfg, g, ts, a). (card (idle cfg g), length ts))", goal_cases)
  case 1
  show ?case by (intro wf_inv_image wf_lex_prod wf_less_than)
next
  case (2 cfg g c ts answer)
  show ?case by simp
next
  case (3 cfg g p ts answer x3 x2)
  then have "card (idle cfg (g(p := (g p)\<lparr>cell_state := EVALUATING\<rparr>))) < card (idle cfg g)"
    by (intro card_idle_mark_evaluating [of cfg p g]) simp_all
  then show ?case by simp
next
  case (4 cfg g p ts answer x3 x2 b x y)
  have inside: "in_spreadsheet cfg p" and idle: "cell_state (g p) \<noteq> EVALUATING"
    using 4(1,2) by simp_all
  have "evaluate_loop cfg (g(p := (g p)\<lparr>cell_state := EVALUATING\<rparr>)) (terms x2) (Finite 0)
      = Inr (x, y)"
    using 4(6,7) by simp
  then have "idle cfg y = idle cfg (g(p := (g p)\<lparr>cell_state := EVALUATING\<rparr>))"
    using 4(8) by (rule evaluate_loop_idle_dom [OF 4(9)])
  then have "idle cfg (y(p := (y p)\<lparr>cell_state := EVALUATED\<rparr>)) = idle cfg g"
    by (rule idle_restore [of cfg p g, OF inside idle])
  then show ?case by simp
next
  case (5 cfg g p ts answer x2)
  then have "idle cfg (g(p := (g p)\<lparr>cell_state := EVALUATED\<rparr>)) = idle cfg g"
    by (intro idle_number [of cfg p g]) simp_all
  then show ?case by simp
qed

text \<open>So every call of the loop returns: the domain predicate holds everywhere.\<close>

lemma evaluate_loop_total: "evaluate_loop_dom (cfg, g, ts, a)"
proof (induction cfg g ts a rule: evaluate_loop.induct)
  case (1 cfg g answer)
  show ?case
    by (rule evaluate_loop.domintros(1))
next
  case (2 cfg g c ts answer)
  then show ?case
    by (rule evaluate_loop.domintros(2))
next
  case (3 cfg g p ts answer)
  show ?case
  proof (rule evaluate_loop.domintros(3), goal_cases)
    case (1 f)
    then show ?case
      by (intro "3.IH"(1) [of "Some f" f]) simp_all
  next
    case (2 f x g')
    then show ?case
      by (intro "3.IH"(2) [of "Some f" f "(x, g')" x g']) simp_all
  next
    case (3 n)
    then show ?case
      by (intro "3.IH"(3) [of n]) simp_all
  qed
qed

lemmas evaluate_loop_idle = evaluate_loop_idle_dom [OF evaluate_loop_total]

section \<open>Evaluation of the library functions on literals\<close>

lemmas strtod_eval = strtod_def isspace_def scan_sign_def parse_magnitude_def ci_match_def
  parse_nan_def parse_hex_def parse_decimal_def scan_mantissa_def isdigit_def isxdigit_def
  is_nchar_def parse_exponent_def dec_val_def hex_val_def xdigit_val_def pow10_def
  round_double_def ilog2_def pow2_def round_half_even_def dbl_neg_def Let_def

lemmas reference_eval = get_cell_by_reference_def char_to_int_def strtol_def

lemmas print_eval = formula_to_string_def term_to_string_def strcat_def
  get_cell_reference_def c_div_def c_mod_def char_of_def fmt_d_def c_string_def
  snprintf_def fmt_f_def round_half_even_def Let_def

section \<open>The empty formula\<close>

text \<open>
  C9. The formula input \<^verbatim>\<open>=\<close> parses into a formula with no terms, and evaluating that
  formula returns the number 0 (and changes no cell).
\<close>

theorem C9_empty_formula:
  "string_to_formula cfg ''='' = Inr (Some \<lparr>terms = []\<rparr>) \<and>
   evaluate_formula cfg g (Some \<lparr>terms = []\<rparr>) = Inr (Finite 0, g)"
  by (simp add: string_to_formula_def evaluate_formula_def)

section \<open>The bound on the number of terms\<close>

text \<open>
  Whenever more than \<open>MAX_TERMS\<close> terms that are numbers or cell references are to
  be stored, the loop of \<^verbatim>\<open>string_to_formula\<close> stores behind the array.
\<close>

lemma too_many_terms_overflow:
  assumes "\<And>tok. tok \<in> set toks \<Longrightarrow>
      snd (strtod tok) \<noteq> 0 \<or> get_cell_by_reference cfg tok \<noteq> None"
    and "MAX_TERMS < length acc + length toks" and "length acc \<le> MAX_TERMS"
  shows "string_to_formula_loop cfg toks acc = Inl OutOfBounds"
  using assms
proof (induction toks arbitrary: acc)
  case Nil
  then show ?case by simp
next
  case (Cons tok toks)
  obtain number n where conv: "strtod tok = (number, n)"
    by (cases "strtod tok")
  have valid: "n \<noteq> 0 \<or> get_cell_by_reference cfg tok \<noteq> None"
    using Cons.prems(1) [of tok] conv by simp
  show ?case
  proof (cases "length acc = MAX_TERMS")
    case True
    then show ?thesis
      using conv valid by (auto split: option.splits)
  next
    case False
    then have room: "length acc < MAX_TERMS"
      using Cons.prems(3) by simp
    have next_term: "string_to_formula_loop cfg toks (acc @ [x]) = Inl OutOfBounds" for x
      using Cons.prems(1,2) room by (intro Cons.IH) simp_all
    show ?thesis
      using conv valid room next_term by (auto split: option.splits)
  qed
qed

text \<open>
  C2. A formula text of eleven terms joined by \<^verbatim>\<open>+\<close> does not fail to parse with an error
  for too many terms: \<^verbatim>\<open>string_to_formula\<close> has no check of \<^verbatim>\<open>num_terms\<close> against
  \<^verbatim>\<open>MAX_TERMS\<close>, and the eleventh term is stored behind the array \<^verbatim>\<open>terms\<close>, which is
  undefined behaviour.
\<close>

theorem C2_eleven_terms_overflow:
  "string_to_formula cfg ''=1+1+1+1+1+1+1+1+1+1+1'' = Inl OutOfBounds"
  by (simp add: string_to_formula_def strtod_eval MAX_TERMS_def)

section \<open>Facts about the display and the grid\<close>

lemma shown_update_cell_display:
  "shown row col (update_cell_display row col s m) = Some s"
  by (cases "filter (\<lambda>(r, c, s). r = row \<and> c = col) (display m)")
     (simp_all add: shown_def update_cell_display_def)

lemma sheet_update_cell_display:
  "sheet (update_cell_display row col s m) = sheet m"
  by (simp add: update_cell_display_def)

lemma cell_at_in_spreadsheet:
  assumes "row < NUM_ROWS cfg" and "col < NUM_COLS cfg"
  shows "in_spreadsheet cfg (cell_at cfg row col)"
proof -
  have "row * NUM_COLS cfg + col < Suc row * NUM_COLS cfg"
    using assms(2) by simp
  also have "\<dots> \<le> NUM_ROWS cfg * NUM_COLS cfg"
    using assms(1) by (intro mult_le_mono1) simp
  finally have "int (row * NUM_COLS cfg + col) < int (NUM_ROWS cfg * NUM_COLS cfg)"
    by (simp only: of_nat_less_iff)
  then show ?thesis
    unfolding in_spreadsheet_def cell_at_def by (simp only: of_nat_0_le_iff simp_thms)
qed

section \<open>A formula text that fails to parse\<close>

text \<open>
  C6. When \<^verbatim>\<open>set_cell_value\<close> gets a text that starts with \<^verbatim>\<open>=\<close> and
  \<^verbatim>\<open>string_to_formula\<close> returns \<^verbatim>\<open>NULL\<close> for it, the cell becomes a \<^verbatim>\<open>FORMULA\<close> cell
  with a null formula, \<^verbatim>\<open>Error: Failed to parse formula\<close> is displayed, and
  \<^verbatim>\<open>evaluate_formula\<close> is still called on the null formula: the call dereferences the
  null pointer, which is where \<^verbatim>\<open>set_cell_value\<close> ends.
\<close>

theorem C6_failed_parse_is_evaluated:
  assumes "in_spreadsheet cfg (cell_at cfg row col)"
    and "text \<noteq> []" and "text ! 0 = CHR ''=''"
    and "string_to_formula cfg text = Inr None"
  shows "\<exists>m'. set_cell_value cfg row col text m = Inl (NullDereference, m')
     \<and> cell_type (sheet m' (cell_at cfg row col)) = FORMULA
     \<and> cell_value (sheet m' (cell_at cfg row col)) = FormulaPtr None
     \<and> shown row col m' = Some ''Error: Failed to parse formula''
     \<and> evaluate_formula cfg (sheet m') (None :: Formula option) = Inl NullDereference"
  using assms
  by (simp add: set_cell_value_def evaluate_formula_def shown_update_cell_display
      sheet_update_cell_display Let_def)

theorem C6_failed_parse_is_evaluated_witness:
  "in_spreadsheet example_config (cell_at example_config 0 0)
   \<and> ''=zz'' \<noteq> [] \<and> ''=zz'' ! 0 = CHR ''=''
   \<and> string_to_formula example_config ''=zz'' = Inr None
   \<and> (\<exists>m'. set_cell_value example_config 0 0 ''=zz'' (start example_config)
           = Inl (NullDereference, m')
     \<and> cell_type (sheet m' (cell_at example_config 0 0)) = FORMULA
     \<and> cell_value (sheet m' (cell_at example_config 0 0)) = FormulaPtr None
     \<and> shown 0 0 m' = Some ''Error: Failed to parse formula''
     \<and> evaluate_formula example_config (sheet m') (None :: Formula option)
           = Inl NullDereference)"
proof -
  have inside: "in_spreadsheet example_config (cell_at example_config 0 0)"
    by (simp add: cell_at_in_spreadsheet example_config_def)
  have parse: "string_to_formula example_config ''=zz'' = Inr None"
    by (simp add: string_to_formula_def strtod_eval reference_eval)
  show ?thesis
    using inside parse
      C6_failed_parse_is_evaluated [OF inside _ _ parse, of "start example_config"]
    by simp
qed

section \<open>Numbers with trailing characters\<close>

text \<open>
  C10. \<^verbatim>\<open>strtod\<close> converts the longest prefix that is a floating-point number and
  the code only asks whether anything was converted. So a text that does not start
  with \<^verbatim>\<open>=\<close> and has such a prefix is stored as a \<^verbatim>\<open>NUMBER\<close> cell with the value of the
  prefix (and displayed as typed), and a term of a formula text with such a prefix
  becomes a constant term with the value of the prefix.
\<close>

theorem C10_numeric_prefix:
  assumes "strtod text = (number, n)" and "n \<noteq> 0"
  shows "(in_spreadsheet cfg (cell_at cfg row col) \<and> \<not> (text \<noteq> [] \<and> text ! 0 = CHR ''='')
      \<longrightarrow> set_cell_value cfg row col text m =
          Inr (update_cell_display row col text
                (m\<lparr>sheet := (sheet m)(cell_at cfg row col := (sheet m (cell_at cfg row col))
                     \<lparr>cell_type := NUMBER, cell_value := Number number\<rparr>)\<rparr>)))
    \<and> (length acc < MAX_TERMS
      \<longrightarrow> string_to_formula_loop cfg (text # rest) acc =
          string_to_formula_loop cfg rest (acc @ [Constant number]))"
  using assms by (simp add: set_cell_value_def Let_def)

theorem C10_numeric_prefix_witness:
  "strtod ''5abc'' = (Finite 5, 1) \<and> (1 :: nat) \<noteq> 0
   \<and> in_spreadsheet example_config (cell_at example_config 0 0)
   \<and> \<not> (''5abc'' \<noteq> [] \<and> ''5abc'' ! 0 = CHR ''='')
   \<and> set_cell_value example_config 0 0 ''5abc'' (start example_config) =
       Inr (update_cell_display 0 0 ''5abc''
             ((start example_config)\<lparr>sheet := (sheet (start example_config))
                (cell_at example_config 0 0 := (sheet (start example_config)
                   (cell_at example_config 0 0))
                   \<lparr>cell_type := NUMBER, cell_value := Number (Finite 5)\<rparr>)\<rparr>))
   \<and> string_to_formula example_config ''=5x+3'' =
       Inr (Some \<lparr>terms = [Constant (Finite 5), Constant (Finite 3)]\<rparr>)"
proof -
  have conv: "strtod ''5abc'' = (Finite 5, 1)"
    by (simp add: strtod_eval)
  have inside: "in_spreadsheet example_config (cell_at example_config 0 0)"
    by (simp add: cell_at_in_spreadsheet example_config_def)
  have term1: "strtod ''5x'' = (Finite 5, 1)"
    by (simp add: strtod_eval)
  have term2: "strtod ''3'' = (Finite 3, 1)"
    by (simp add: strtod_eval)
  have "string_to_formula example_config ''=5x+3'' =
      string_to_formula_loop example_config [''3''] [Constant (Finite 5)]"
    using C10_numeric_prefix [OF term1, where acc = "[]" and cfg = example_config
        and rest = "[''3'']"]
    by (simp add: string_to_formula_def MAX_TERMS_def)
  also have "\<dots> = Inr (Some \<lparr>terms = [Constant (Finite 5), Constant (Finite 3)]\<rparr>)"
    by (simp add: term2 MAX_TERMS_def)
  finally show ?thesis
    using conv inside
      C10_numeric_prefix [OF conv, where cfg = example_config and row = 0 and col = 0
        and m = "start example_config"]
    by simp
qed

section \<open>Printing and reading decimal numbers\<close>

lemma digit_char:
  assumes "d < 10"
  shows "(of_char (''0123456789'' ! d) :: nat) = 48 + d"
proof -
  from assms have "d \<in> {0, 1, 2, 3, 4, 5, 6, 7, 8, 9}"
    by auto
  then show ?thesis
    by auto
qed

lemma isdigit_digit_char: "d < 10 \<Longrightarrow> isdigit (''0123456789'' ! d)"
  by (simp add: isdigit_def digit_char)

lemma dec_str_not_Nil: "dec_str n \<noteq> []"
  by (subst dec_str.simps) simp

lemma dec_str_digits: "c \<in> set (dec_str n) \<Longrightarrow> isdigit c"
proof (induction n arbitrary: c rule: dec_str.induct)
  case (1 n)
  show ?case
  proof (cases "n < 10")
    case True
    with "1.prems" show ?thesis
      by (subst (asm) dec_str.simps) (simp add: isdigit_digit_char)
  next
    case False
    with "1.prems" have "c \<in> set (dec_str (n div 10)) \<or> c = ''0123456789'' ! (n mod 10)"
      by (subst (asm) dec_str.simps) auto
    then show ?thesis
      using "1.IH" [OF False] isdigit_digit_char [of "n mod 10"] by auto
  qed
qed

lemma dec_val_snoc: "dec_val (ds @ [c]) = 10 * dec_val ds + (of_char c - 48)"
  by (simp add: dec_val_def)

lemma dec_val_dec_str: "dec_val (dec_str n) = n"
proof (induction n rule: dec_str.induct)
  case (1 n)
  show ?case
  proof (cases "n < 10")
    case True
    then show ?thesis
      by (subst dec_str.simps) (simp add: dec_val_def digit_char)
  next
    case False
    then have "dec_val (dec_str n) = 10 * dec_val (dec_str (n div 10)) + n mod 10"
      by (subst dec_str.simps) (simp add: dec_val_snoc digit_char)
    then show ?thesis
      using "1.IH" [OF False] by simp
  qed
qed

lemma length_dec_str_small: "n < 100 \<Longrightarrow> length (dec_str n) \<le> 2"
  by (subst dec_str.simps, subst dec_str.simps) (simp; arith)

lemma length_dec_str_large: "100 \<le> n \<Longrightarrow> 3 \<le> length (dec_str n)"
proof -
  assume big: "100 \<le> n"
  have "length (dec_str n) = Suc (length (dec_str (n div 10)))"
    using big by (subst dec_str.simps) simp
  also have "length (dec_str (n div 10)) = Suc (length (dec_str (n div 10 div 10)))"
    using big by (subst dec_str.simps) simp
  finally show ?thesis
    using dec_str_not_Nil [of "n div 10 div 10"]
    by (cases "dec_str (n div 10 div 10)") simp_all
qed

lemma takeWhile_all: "(\<And>c. c \<in> set xs \<Longrightarrow> P c) \<Longrightarrow> takeWhile P xs = xs"
  by (induction xs) simp_all

lemma not_isspace_isdigit: "isdigit c \<Longrightarrow> \<not> isspace c"
  by (auto simp: isdigit_def isspace_def)

lemma not_sign_isdigit: "isdigit c \<Longrightarrow> c \<noteq> CHR ''-'' \<and> c \<noteq> CHR ''+''"
  by (auto simp: isdigit_def)

text \<open>\<^verbatim>\<open>strtol\<close> reads back what \<^verbatim>\<open>%d\<close> prints for a natural number in the range of \<^verbatim>\<open>long\<close>.\<close>

lemma strtol_dec_str:
  assumes "int n < 2 ^ 63"
  shows "strtol (dec_str n) = (int n, length (dec_str n))"
proof -
  obtain c cs where cs: "dec_str n = c # cs"
    using dec_str_not_Nil [of n] by (cases "dec_str n") auto
  have c: "isdigit c"
    using dec_str_digits [of c n] cs by simp
  have all: "takeWhile isdigit (dec_str n) = dec_str n"
    by (rule takeWhile_all) (rule dec_str_digits)
  have "takeWhile isspace (dec_str n) = []"
    using c cs by (simp add: not_isspace_isdigit)
  moreover have "scan_sign (dec_str n) = (False, 0)"
    using not_sign_isdigit [OF c] cs by (simp add: scan_sign_def)
  ultimately show ?thesis
    using assms dec_str_not_Nil [of n]
    by (simp add: strtol_def dec_val_dec_str min_def max_def Let_def all)
qed

section \<open>Cell references and cell pointers\<close>

lemma c_div_nat: "0 < b \<Longrightarrow> c_div (int a) (int b) = int (a div b)"
  by (cases "a = 0") (simp_all add: c_div_def zdiv_int)

lemma c_mod_nat: "0 < b \<Longrightarrow> c_mod (int a) (int b) = int (a mod b)"
  by (cases "a = 0") (simp_all add: c_mod_def zmod_int)

lemma of_char_char_of_int: "n < 256 \<Longrightarrow> (of_char (char_of (int n)) :: nat) = n"
  by simp

lemma char_of_letter_not_NUL: "col < 26 \<Longrightarrow> char_of (int col + 65) \<noteq> CHR 0x00"
proof
  assume "col < 26" and "char_of (int col + 65) = CHR 0x00"
  then have "(of_char (char_of (int (col + 65))) :: nat) = of_char (CHR 0x00)"
    by (simp add: add.commute)
  then show False
    using \<open>col < 26\<close> by (simp only: of_char_char_of_int) simp
qed

lemma digit_not_NUL: "isdigit c \<Longrightarrow> c \<noteq> CHR 0x00"
  by (auto simp: isdigit_def)

text \<open>The reference string of the cell in row \<open>row\<close> and column \<open>col\<close>.\<close>

lemma get_cell_reference_cell_at:
  assumes "col < NUM_COLS cfg" and "col < 26" and "row < 99"
  shows "get_cell_reference cfg (cell_at cfg row col)
    = Inr (char_of (int col + 65) # dec_str (Suc row))"
proof -
  have pos: "0 < NUM_COLS cfg"
    using assms(1) by simp
  have "(row * NUM_COLS cfg + col) div NUM_COLS cfg = row"
    and "(row * NUM_COLS cfg + col) mod NUM_COLS cfg = col"
    using assms(1) by simp_all
  then have row: "c_div (cell_at cfg row col) (int (NUM_COLS cfg)) = int row"
    and col: "c_mod (cell_at cfg row col) (int (NUM_COLS cfg)) = int col"
    unfolding cell_at_def by (simp_all only: c_div_nat [OF pos] c_mod_nat [OF pos])
  have print: "fmt_d (int row + 1) = dec_str (Suc row)"
    by (simp add: fmt_d_def nat_add_distrib)
  have len: "length (dec_str (Suc row)) \<le> 2"
    using assms(3) by (intro length_dec_str_small) simp
  have "c_string (char_of (int col + 65) # dec_str (Suc row))
      = char_of (int col + 65) # dec_str (Suc row)"
    unfolding c_string_def
    by (rule takeWhile_all)
       (use char_of_letter_not_NUL [OF assms(2)] dec_str_digits digit_not_NUL in auto)
  then show ?thesis
    using pos len by (simp add: get_cell_reference_def row col print)
qed

text \<open>What \<^verbatim>\<open>get_cell_by_reference\<close> returns for that string.\<close>

lemma get_cell_by_reference_reference:
  assumes "col < 26" and "row < NUM_ROWS cfg" and "row < 99"
  shows "get_cell_by_reference cfg (char_of (int col + 65) # dec_str (Suc row))
    = Some (cell_at cfg row col)"
proof -
  have "(of_char (char_of (int (col + 65))) :: nat) = col + 65"
    using assms(1) by (simp only: of_char_char_of_int)
  then have letter: "char_to_int (char_of (int col + 65)) = int col + 65"
    using assms(1) by (simp add: char_to_int_def add.commute)
  have number: "strtol (dec_str (Suc row)) = (int (Suc row), length (dec_str (Suc row)))"
    using assms(3) by (intro strtol_dec_str) simp
  have "2 \<le> length (char_of (int col + 65) # dec_str (Suc row))"
    using dec_str_not_Nil [of "Suc row"] by (cases "dec_str (Suc row)") simp_all
  then show ?thesis
    using assms(1,2)
    by (simp add: get_cell_by_reference_def letter number cell_at_def dec_str_not_Nil)
qed

text \<open>
  C7. For every coordinate of the grid, \<^verbatim>\<open>get_cell_reference\<close> gives a reference string
  that \<^verbatim>\<open>get_cell_by_reference\<close> maps back to the same cell, when the grid has at most
  26 columns (one upper-case letter each) and at most 99 rows (the buffer of 4 bytes in
  \<^verbatim>\<open>get_cell_reference\<close> holds the letter, two digits and the terminating NUL).
\<close>

theorem C7_reference_round_trip:
  assumes "row < NUM_ROWS cfg" and "col < NUM_COLS cfg"
    and "NUM_COLS cfg \<le> 26" and "NUM_ROWS cfg \<le> 99"
  shows "\<exists>reference. get_cell_reference cfg (cell_at cfg row col) = Inr reference
    \<and> get_cell_by_reference cfg reference = Some (cell_at cfg row col)"
proof -
  have col: "col < 26" and row: "row < 99"
    using assms by simp_all
  show ?thesis
    using get_cell_reference_cell_at [OF assms(2) col row]
      get_cell_by_reference_reference [OF col assms(1) row]
    by simp
qed

theorem C7_reference_round_trip_witness:
  "(9 :: nat) < NUM_ROWS example_config \<and> (25 :: nat) < NUM_COLS example_config
   \<and> NUM_COLS example_config \<le> 26 \<and> NUM_ROWS example_config \<le> 99
   \<and> (\<exists>reference. get_cell_reference example_config (cell_at example_config 9 25)
          = Inr reference
        \<and> get_cell_by_reference example_config reference
          = Some (cell_at example_config 9 25))
   \<and> get_cell_reference example_config (cell_at example_config 9 25) = Inr ''Z10''"
proof -
  have cfg: "(9 :: nat) < NUM_ROWS example_config" "(25 :: nat) < NUM_COLS example_config"
      "NUM_COLS example_config \<le> 26" "NUM_ROWS example_config \<le> 99"
    by (simp_all add: example_config_def)
  have "get_cell_reference example_config (cell_at example_config 9 25) = Inr ''Z10''"
    by (simp add: example_config_def cell_at_def print_eval)
  then show ?thesis
    using cfg C7_reference_round_trip [OF cfg] by simp
qed

text \<open>With 100 rows or more, the reference of a row from the 100th does not fit the buffer.\<close>

lemma get_cell_reference_overflow:
  assumes "col < NUM_COLS cfg" and "99 \<le> row"
  shows "get_cell_reference cfg (cell_at cfg row col) = Inl BufferOverflow"
proof -
  have pos: "0 < NUM_COLS cfg"
    using assms(1) by simp
  have "(row * NUM_COLS cfg + col) div NUM_COLS cfg = row"
    using assms(1) by simp
  then have row: "c_div (cell_at cfg row col) (int (NUM_COLS cfg)) = int row"
    unfolding cell_at_def by (simp only: c_div_nat [OF pos])
  have print: "fmt_d (int row + 1) = dec_str (Suc row)"
    by (simp add: fmt_d_def nat_add_distrib)
  have "3 \<le> length (dec_str (Suc row))"
    using assms(2) by (intro length_dec_str_large) simp
  then show ?thesis
    using pos by (simp add: get_cell_reference_def row print)
qed

section \<open>What an evaluation changes\<close>

text \<open>\<^verbatim>\<open>evaluate_formula\<close> writes the evaluation states only: type and value of every cell stay.\<close>

lemma evaluate_loop_cells:
  "evaluate_loop cfg g ts a = Inr (r, g') \<Longrightarrow>
   cell_type (g' q) = cell_type (g q) \<and> cell_value (g' q) = cell_value (g q)"
proof (induction cfg g ts a arbitrary: r g' rule: evaluate_loop.induct)
  case (1 cfg g answer)
  then show ?case by simp
next
  case (2 cfg g c ts answer)
  then show ?case by simp
next
  case (3 cfg g p ts answer)
  note res = "3.prems"
  show ?case
  proof (cases "in_spreadsheet cfg p \<and> cell_state (g p) \<noteq> EVALUATING")
    case False
    then show ?thesis
      using res by (auto split: if_splits)
  next
    case True
    then have nn: "\<not> \<not> in_spreadsheet cfg p" and idle: "cell_state (g p) \<noteq> EVALUATING"
      by simp_all
    show ?thesis
    proof (cases "cell_type (g p)")
      case TEXT
      then show ?thesis
        using res True by simp
    next
      case NUMBER
      then have nf: "cell_type (g p) \<noteq> FORMULA"
        by simp
      show ?thesis
      proof (cases "cell_value (g p)")
        case (Number n)
        have "evaluate_loop cfg (g(p := (g p)\<lparr>cell_state := EVALUATED\<rparr>)) ts (dbl_add answer n)
            = Inr (r, g')"
          using res True NUMBER Number by simp
        then have "cell_type (g' q) = cell_type ((g(p := (g p)\<lparr>cell_state := EVALUATED\<rparr>)) q)
            \<and> cell_value (g' q) = cell_value ((g(p := (g p)\<lparr>cell_state := EVALUATED\<rparr>)) q)"
          by (rule "3.IH"(3) [OF nn idle nf NUMBER Number])
        then show ?thesis
          by simp
      qed (use res True NUMBER in simp_all)
    next
      case FORMULA
      show ?thesis
      proof (cases "cell_value (g p)")
        case (FormulaPtr fo)
        show ?thesis
        proof (cases fo)
          case None
          then show ?thesis
            using res True FORMULA FormulaPtr by simp
        next
          case (Some f)
          let ?g1 = "g(p := (g p)\<lparr>cell_state := EVALUATING\<rparr>)"
          show ?thesis
          proof (cases "evaluate_loop cfg ?g1 (terms f) (Finite 0)")
            case (Inl e)
            then show ?thesis
              using res True FORMULA FormulaPtr Some by simp
          next
            case (Inr b)
            obtain x g2 where b: "b = (x, g2)"
              by (cases b)
            have sub: "evaluate_loop cfg ?g1 (terms f) (Finite 0) = Inr (x, g2)"
              using Inr b by simp
            have "cell_type (g2 q) = cell_type (?g1 q) \<and> cell_value (g2 q) = cell_value (?g1 q)"
              using sub by (rule "3.IH"(1) [OF nn idle FORMULA FormulaPtr Some])
            then have g2: "cell_type (g2 q) = cell_type (g q)
                \<and> cell_value (g2 q) = cell_value (g q)"
              by simp
            show ?thesis
            proof (cases "isinf x")
              case True
              then have "g' = g2"
                using res \<open>in_spreadsheet cfg p \<and> cell_state (g p) \<noteq> EVALUATING\<close>
                  FORMULA FormulaPtr Some sub by simp
              then show ?thesis
                using g2 by simp
            next
              case False
              let ?g3 = "g2(p := (g2 p)\<lparr>cell_state := EVALUATED\<rparr>)"
              have "evaluate_loop cfg ?g3 ts (dbl_add answer x) = Inr (r, g')"
                using res True FORMULA FormulaPtr Some sub False by simp
              then have "cell_type (g' q) = cell_type (?g3 q)
                  \<and> cell_value (g' q) = cell_value (?g3 q)"
                by (rule "3.IH"(2) [OF nn idle FORMULA FormulaPtr Some Inr b [symmetric] False])
              then show ?thesis
                using g2 by (cases "q = p") simp_all
            qed
          qed
        qed
      qed (use res True FORMULA in simp_all)
    qed
  qed
qed

section \<open>Scenarios\<close>

lemmas session_eval = start_def model_init_def zero_spreadsheet_def zero_cell_def
  set_cell_value_def cell_at_def update_cell_display_def
  evaluate_formula_def string_to_formula_def MAX_TERMS_def isnan_def isinf_def
  snprintf_def fmt_f_def shown_def displayed_def

lemma in_spreadsheet_first_row:
  assumes "1 \<le> NUM_ROWS cfg" and "col < NUM_COLS cfg"
  shows "in_spreadsheet cfg (int col)"
  using cell_at_in_spreadsheet [of 0 cfg col] assms by (simp add: cell_at_def)

text \<open>
  C5. On a grid of at least one row, three columns and a display width of at least 15:
  after A1 is set to \<^verbatim>\<open>5\<close>, B1 to \<^verbatim>\<open>3\<close> and C1 to \<^verbatim>\<open>=A1+B1+2\<close>, evaluating the formula of
  C1 returns 10.0, C1 displays \<^verbatim>\<open>10.000000\<close>, and \<^verbatim>\<open>get_textual_value\<close> of C1 returns
  \<^verbatim>\<open>=A1+B1+2.000000\<close>.
\<close>

theorem C5_sum_scenario:
  assumes "1 \<le> NUM_ROWS cfg" and "3 \<le> NUM_COLS cfg" and "15 \<le> CELL_DISPLAY_WIDTH cfg"
  shows "\<exists>m f g'. session cfg [(0, 0, ''5''), (0, 1, ''3''), (0, 2, ''=A1+B1+2'')] (start cfg)
        = Inr m
     \<and> cell_value (sheet m (cell_at cfg 0 2)) = FormulaPtr (Some f)
     \<and> evaluate_formula cfg (sheet m) (Some f) = Inr (Finite 10, g')
     \<and> shown 0 2 m = Some ''10.000000''
     \<and> get_textual_value cfg 0 2 m = Inr ''=A1+B1+2.000000''"
proof -
  have i: "in_spreadsheet cfg 0" "in_spreadsheet cfg 1" "in_spreadsheet cfg 2"
    using in_spreadsheet_first_row [of cfg 0] in_spreadsheet_first_row [of cfg 1]
      in_spreadsheet_first_row [of cfg 2] assms
    by simp_all
  have r: "get_cell_reference cfg 0 = Inr ''A1''" "get_cell_reference cfg 1 = Inr ''B1''"
    using get_cell_reference_cell_at [of 0 cfg 0] get_cell_reference_cell_at [of 1 cfg 0] assms
    by (simp_all add: cell_at_def char_of_def)
  show ?thesis
    using assms
    by (simp add: session_eval strtod_eval reference_eval i r
      formula_to_string_def term_to_string_def strcat_def get_textual_value_def)
qed

theorem C5_sum_scenario_witness:
  "1 \<le> NUM_ROWS example_config \<and> 3 \<le> NUM_COLS example_config
   \<and> 15 \<le> CELL_DISPLAY_WIDTH example_config
   \<and> (\<exists>m f g'. session example_config
          [(0, 0, ''5''), (0, 1, ''3''), (0, 2, ''=A1+B1+2'')] (start example_config) = Inr m
     \<and> cell_value (sheet m (cell_at example_config 0 2)) = FormulaPtr (Some f)
     \<and> evaluate_formula example_config (sheet m) (Some f) = Inr (Finite 10, g')
     \<and> shown 0 2 m = Some ''10.000000''
     \<and> get_textual_value example_config 0 2 m = Inr ''=A1+B1+2.000000'')"
proof -
  have cfg: "1 \<le> NUM_ROWS example_config" "3 \<le> NUM_COLS example_config"
      "15 \<le> CELL_DISPLAY_WIDTH example_config"
    by (simp_all add: example_config_def)
  show ?thesis
    using cfg C5_sum_scenario [OF cfg] by simp
qed

text \<open>
  C1, as the code has it. On the initial grid (at least one row and two columns), setting
  A1 to \<^verbatim>\<open>=B1\<close> displays \<^verbatim>\<open>Error: cell contains non-numeric value\<close>, because B1 is an
  empty \<^verbatim>\<open>TEXT\<close> cell when the formula of A1 is evaluated, and a formula is evaluated only
  when it is set. Setting B1 to \<^verbatim>\<open>=A1\<close> afterwards displays
  \<^verbatim>\<open>Error: circular dependency detected\<close>. After both, A1 and B1 are \<^verbatim>\<open>FORMULA\<close> cells
  that hold the formulas they were given.
\<close>

theorem C1_mutual_reference:
  assumes "1 \<le> NUM_ROWS cfg" and "2 \<le> NUM_COLS cfg"
  shows "\<exists>m1 m2. set_cell_value cfg 0 0 ''=B1'' (start cfg) = Inr m1
     \<and> shown 0 0 m1 = Some ''Error: cell contains non-numeric value''
     \<and> set_cell_value cfg 0 1 ''=A1'' m1 = Inr m2
     \<and> shown 0 1 m2 = Some ''Error: circular dependency detected''
     \<and> cell_type (sheet m2 (cell_at cfg 0 0)) = FORMULA
     \<and> cell_value (sheet m2 (cell_at cfg 0 0))
         = FormulaPtr (Some \<lparr>terms = [CellPtr (cell_at cfg 0 1)]\<rparr>)
     \<and> cell_type (sheet m2 (cell_at cfg 0 1)) = FORMULA
     \<and> cell_value (sheet m2 (cell_at cfg 0 1))
         = FormulaPtr (Some \<lparr>terms = [CellPtr (cell_at cfg 0 0)]\<rparr>)"
proof -
  have i: "in_spreadsheet cfg 0" "in_spreadsheet cfg 1"
    using in_spreadsheet_first_row [of cfg 0] in_spreadsheet_first_row [of cfg 1] assms
    by simp_all
  show ?thesis
    using assms by (simp add: session_eval strtod_eval reference_eval i)
qed

theorem C1_mutual_reference_witness:
  "1 \<le> NUM_ROWS example_config \<and> 2 \<le> NUM_COLS example_config
   \<and> (\<exists>m1 m2. set_cell_value example_config 0 0 ''=B1'' (start example_config) = Inr m1
     \<and> shown 0 0 m1 = Some ''Error: cell contains non-numeric value''
     \<and> set_cell_value example_config 0 1 ''=A1'' m1 = Inr m2
     \<and> shown 0 1 m2 = Some ''Error: circular dependency detected''
     \<and> cell_type (sheet m2 (cell_at example_config 0 0)) = FORMULA
     \<and> cell_value (sheet m2 (cell_at example_config 0 0))
         = FormulaPtr (Some \<lparr>terms = [CellPtr (cell_at example_config 0 1)]\<rparr>)
     \<and> cell_type (sheet m2 (cell_at example_config 0 1)) = FORMULA
     \<and> cell_value (sheet m2 (cell_at example_config 0 1))
         = FormulaPtr (Some \<lparr>terms = [CellPtr (cell_at example_config 0 0)]\<rparr>))"
proof -
  have cfg: "1 \<le> NUM_ROWS example_config" "2 \<le> NUM_COLS example_config"
    by (simp_all add: example_config_def)
  show ?thesis
    using cfg C1_mutual_reference [OF cfg] by simp
qed

text \<open>
  C1, the counterexample to the display of the first set operation as the specification
  states it: setting A1 to \<^verbatim>\<open>=B1\<close> on the initial grid does not display the circular
  dependency.
\<close>

theorem C1_first_set_counterexample:
  "displayed 0 0 (session example_config [(0, 0, ''=B1'')] (start example_config))
     = Some ''Error: cell contains non-numeric value''
   \<and> displayed 0 0 (session example_config [(0, 0, ''=B1'')] (start example_config))
     \<noteq> Some ''Error: circular dependency detected''"
  by (simp add: session_eval strtod_eval reference_eval example_config_def in_spreadsheet_def)

text \<open>
  C3. A1 is set to \<^verbatim>\<open>=B1\<close> and then B1 to \<^verbatim>\<open>=A1+C1\<close>, C1 being an empty \<^verbatim>\<open>TEXT\<close> cell.
  Evaluating B1 enters A1, then B1, and finds A1 in state \<^verbatim>\<open>EVALUATING\<close>: that call
  returns NaN. The enclosing calls test their result with \<^verbatim>\<open>isinf\<close> only, so they add
  the NaN and go on with their terms; the outermost one reaches C1 and returns
  \<^verbatim>\<open>INFINITY\<close>, and B1 displays the non-numeric error, not the circular dependency.
\<close>

theorem C3_circular_then_text:
  "displayed 0 1 (session example_config [(0, 0, ''=B1''), (0, 1, ''=A1+C1'')]
      (start example_config))
     = Some ''Error: cell contains non-numeric value''"
  by (simp add: session_eval strtod_eval reference_eval example_config_def in_spreadsheet_def)

section \<open>References to text cells\<close>

text \<open>
  C4. A1 is set to the text \<^verbatim>\<open>hello\<close>, B1 to \<^verbatim>\<open>=A1\<close>, C1 to \<^verbatim>\<open>=B1\<close> and then D1 to
  \<^verbatim>\<open>=B1\<close>: no cell refers to itself, C1 and D1 refer to the formula cell B1, and B1
  refers to the text cell A1. Evaluating C1 marks B1 \<^verbatim>\<open>EVALUATING\<close>, gets \<^verbatim>\<open>INFINITY\<close> for
  the formula of B1 and returns it at once, so C1 displays the non-numeric error; but
  that return leaves B1 marked \<^verbatim>\<open>EVALUATING\<close>, where the path that adds a result sets
  \<^verbatim>\<open>EVALUATED\<close>. Evaluating D1 then finds B1 in that state and returns NaN: D1 displays
  the circular dependency, not the non-numeric error.
\<close>

theorem C4_stale_evaluating_mark:
  "\<exists>m3 m4. session example_config [(0, 0, ''hello''), (0, 1, ''=A1''), (0, 2, ''=B1'')]
        (start example_config) = Inr m3
     \<and> shown 0 2 m3 = Some ''Error: cell contains non-numeric value''
     \<and> cell_state (sheet m3 (cell_at example_config 0 1)) = EVALUATING
     \<and> set_cell_value example_config 0 3 ''=B1'' m3 = Inr m4
     \<and> shown 0 3 m4 = Some ''Error: circular dependency detected''"
  by (simp add: session_eval strtod_eval reference_eval example_config_def in_spreadsheet_def)

section \<open>Rounding to binary64\<close>

text \<open>Powers of two with an integer exponent.\<close>

lemma pow2_powi: "pow2 e = 2 powi e"
  by (simp add: pow2_def power_int_def inverse_eq_divide power_one_over)

lemma pow2_pos: "0 < pow2 e"
  by (simp add: pow2_powi zero_less_power_int)

lemma pow2_add: "pow2 (a + b) = pow2 a * pow2 b"
  by (simp add: pow2_powi power_int_add)

lemma pow2_mono: "a \<le> b \<Longrightarrow> pow2 a \<le> pow2 b"
  by (simp add: pow2_powi power_int_increasing)

lemma pow2_strict_mono: "a < b \<Longrightarrow> pow2 a < pow2 b"
  by (simp add: pow2_powi power_int_strict_increasing)

lemma pow2_nat: "pow2 (int n) = 2 ^ n"
  by (simp add: pow2_def)

lemma pow2_neg_nat: "pow2 (- int n) = 1 / 2 ^ n"
  by (cases "n = 0") (simp_all add: pow2_def)

text \<open>The binary exponent of a positive number: \<open>2 ^ e \<le> a < 2 ^ (e + 1)\<close> for \<open>e = ilog2 a\<close>.\<close>

lemma log2floor_bounds: "0 < n \<Longrightarrow> 2 ^ log2floor n \<le> n \<and> n < 2 ^ Suc (log2floor n)"
proof (induction n rule: log2floor.induct)
  case (1 n)
  show ?case
  proof (cases "n < 2")
    case True
    with "1.prems" show ?thesis
      by (subst (1 2) log2floor.simps) simp
  next
    case False
    then have "2 ^ log2floor (n div 2) \<le> n div 2 \<and> n div 2 < 2 ^ Suc (log2floor (n div 2))"
      using "1.IH" by simp
    then have "2 * 2 ^ log2floor (n div 2) \<le> n \<and> n < 2 * 2 ^ Suc (log2floor (n div 2))"
      by linarith
    with False show ?thesis
      by (subst (1 2) log2floor.simps) simp
  qed
qed

lemma nat_floor_bounds:
  assumes "1 \<le> (a::rat)"
  shows "0 < nat \<lfloor>a\<rfloor>" and "of_nat (nat \<lfloor>a\<rfloor>) \<le> a" and "a < of_nat (nat \<lfloor>a\<rfloor>) + 1"
proof -
  have pos: "1 \<le> \<lfloor>a\<rfloor>"
    using assms by (simp add: le_floor_iff)
  then show "0 < nat \<lfloor>a\<rfloor>"
    by simp
  have eq: "(of_nat (nat \<lfloor>a\<rfloor>) :: rat) = of_int \<lfloor>a\<rfloor>"
    using pos by simp
  show "of_nat (nat \<lfloor>a\<rfloor>) \<le> a"
    unfolding eq by (rule of_int_floor_le)
  show "a < of_nat (nat \<lfloor>a\<rfloor>) + 1"
    unfolding eq by linarith
qed

lemma log2floor_bounds_rat:
  assumes "0 < n"
  shows "(2::rat) ^ log2floor n \<le> of_nat n" and "(of_nat n :: rat) + 1 \<le> 2 ^ Suc (log2floor n)"
proof -
  have b: "2 ^ log2floor n \<le> n" "Suc n \<le> 2 ^ Suc (log2floor n)"
    using log2floor_bounds [OF assms] by simp_all
  have "(of_nat (2 ^ log2floor n) :: rat) \<le> of_nat n"
    using b(1) by (simp only: of_nat_le_iff)
  then show "(2::rat) ^ log2floor n \<le> of_nat n"
    by simp
  have "(of_nat (Suc n) :: rat) \<le> of_nat (2 ^ Suc (log2floor n))"
    using b(2) by (simp only: of_nat_le_iff)
  then show "(of_nat n :: rat) + 1 \<le> 2 ^ Suc (log2floor n)"
    by simp
qed

lemma ilog2_bounds_large:
  assumes "1 \<le> a"
  shows "pow2 (ilog2 a) \<le> a \<and> a < pow2 (ilog2 a + 1)"
proof -
  define n where "n = nat \<lfloor>a\<rfloor>"
  have n: "0 < n" "of_nat n \<le> a" "a < of_nat n + 1"
    using nat_floor_bounds [OF assms] by (simp_all add: n_def)
  have "2 ^ log2floor n \<le> a" "a < 2 ^ Suc (log2floor n)"
    using log2floor_bounds_rat [OF n(1)] n(2,3) by linarith+
  moreover have "ilog2 a = int (log2floor n)"
    using assms by (simp add: ilog2_def n_def)
  moreover have "int (log2floor n) + 1 = int (Suc (log2floor n))"
    by simp
  ultimately show ?thesis
    by (simp only: pow2_nat)
qed

lemma ilog2_bounds_small:
  assumes "0 < a" and "a < 1"
  shows "pow2 (ilog2 a) \<le> a \<and> a < pow2 (ilog2 a + 1)"
proof -
  define n where "n = nat \<lfloor>1 / a\<rfloor>"
  define k where "k = log2floor n"
  have inv: "1 \<le> 1 / a"
    using assms by simp
  have n: "0 < n" "of_nat n \<le> 1 / a" "1 / a < of_nat n + 1"
    using nat_floor_bounds [OF inv] by (simp_all add: n_def)
  have c: "2 ^ k \<le> 1 / a" "1 / a < 2 ^ Suc k"
    using log2floor_bounds_rat [OF n(1)] n(2,3) unfolding k_def by linarith+
  have "a * 2 ^ k \<le> 1"
    using c(1) assms(1) by (simp add: pos_le_divide_eq mult.commute)
  then have up: "a \<le> 1 / 2 ^ k"
    by (simp add: pos_le_divide_eq)
  have "1 < a * 2 ^ Suc k"
    using c(2) assms(1) by (simp only: pos_divide_less_eq mult.commute)
  then have low: "1 / 2 ^ Suc k < a"
    by (simp only: pos_divide_less_eq zero_less_power zero_less_numeral)
  have il: "ilog2 a = (if pow2 (- int k) = a then - int k else - int k - 1)"
    using assms(2) by (simp add: ilog2_def n_def k_def Let_def)
  show ?thesis
  proof (cases "pow2 (- int k) = a")
    case True
    then have e: "ilog2 a = - int k"
      using il by simp
    have "pow2 (- int k) < pow2 (- int k + 1)"
      by (rule pow2_strict_mono) simp
    then show ?thesis
      unfolding e using True by simp
  next
    case neq: False
    then have e: "ilog2 a = - int (Suc k)"
      using il by simp
    have "a < pow2 (- int k)"
      using up neq by (simp only: pow2_neg_nat)
    moreover have "- int (Suc k) + 1 = - int k"
      by simp
    moreover have "pow2 (- int (Suc k)) < a"
      using low by (simp only: pow2_neg_nat)
    ultimately show ?thesis
      unfolding e by simp
  qed
qed

lemma ilog2_bounds:
  assumes "0 < a"
  shows "pow2 (ilog2 a) \<le> a" and "a < pow2 (ilog2 a + 1)"
  using ilog2_bounds_large [of a] ilog2_bounds_small [OF assms] by (cases "1 \<le> a"; simp)+

lemma ilog2_unique:
  assumes "0 < a" and "pow2 e \<le> a" and "a < pow2 (e + 1)"
  shows "ilog2 a = e"
proof (rule antisym)
  have "pow2 (ilog2 a) < pow2 (e + 1)"
    using ilog2_bounds(1) [OF assms(1)] assms(3) by simp
  then have "ilog2 a < e + 1"
    using pow2_mono [of "e + 1" "ilog2 a"] by (cases "ilog2 a < e + 1") simp_all
  then show "ilog2 a \<le> e"
    by simp
  have "pow2 e < pow2 (ilog2 a + 1)"
    using ilog2_bounds(2) [OF assms(1)] assms(2) by simp
  then have "e < ilog2 a + 1"
    using pow2_mono [of "ilog2 a + 1" e] by (cases "e < ilog2 a + 1") simp_all
  then show "e \<le> ilog2 a"
    by simp
qed

text \<open>Rounding to an integer, ties to even.\<close>

lemma rne_cases:
  "round_half_even x = \<lfloor>x\<rfloor> \<or> round_half_even x = \<lfloor>x\<rfloor> + 1"
  by (simp add: round_half_even_def Let_def)

lemma rne_bounds: "\<bar>of_int (round_half_even x) - x\<bar> \<le> 1 / 2"
proof -
  have "of_int \<lfloor>x\<rfloor> \<le> x" "x < of_int \<lfloor>x\<rfloor> + 1"
    by linarith+
  then show ?thesis
    by (auto simp: round_half_even_def Let_def abs_le_iff)
qed

lemma rne_eq:
  assumes "\<bar>x - of_int k\<bar> < 1 / 2"
  shows "round_half_even x = k"
proof -
  have "\<bar>(of_int (round_half_even x) :: rat) - of_int k\<bar> < 1"
    using rne_bounds [of x] assms by linarith
  then have "\<bar>of_int (round_half_even x - k) :: rat\<bar> < 1"
    by simp
  then have "\<bar>round_half_even x - k\<bar> < 1"
    by (metis of_int_abs of_int_less_1_iff)
  then show ?thesis
    by simp
qed

lemma rne_of_int: "round_half_even (of_int k) = k"
  by (rule rne_eq) simp

lemma rne_ge: "of_int k \<le> x \<Longrightarrow> k \<le> round_half_even x"
proof -
  assume "of_int k \<le> x"
  then have "k \<le> \<lfloor>x\<rfloor>"
    by (simp add: le_floor_iff)
  then show ?thesis
    using rne_cases [of x] by linarith
qed

lemma rne_le: "x \<le> of_int k \<Longrightarrow> round_half_even x \<le> k"
proof (cases "x = of_int k")
  case True
  then show ?thesis by (simp add: rne_of_int)
next
  case False
  assume "x \<le> of_int k"
  with False have "x < of_int k" by simp
  then have "\<lfloor>x\<rfloor> < k"
    by (simp add: floor_less_iff)
  then show ?thesis
    using rne_cases [of x] by linarith
qed

lemma rne_minus: "round_half_even (- x) = - round_half_even x"
proof (cases "x = of_int \<lfloor>x\<rfloor>")
  case True
  then obtain k where "x = of_int k" ..
  then have "- x = of_int (- k)" by simp
  then show ?thesis
    unfolding \<open>x = of_int k\<close> by (simp only: rne_of_int)
next
  case False
  have fl: "of_int \<lfloor>x\<rfloor> < x" "x < of_int \<lfloor>x\<rfloor> + 1"
    using False by linarith+
  have neg: "\<lfloor>- x\<rfloor> = - \<lfloor>x\<rfloor> - 1"
    using fl by (intro floor_unique) simp_all
  show ?thesis
    using fl by (auto simp: round_half_even_def Let_def neg)
qed

lemma rne_pos: "1 / 2 < x \<Longrightarrow> 1 \<le> round_half_even x"
proof -
  assume x: "1 / 2 < x"
  then have "0 \<le> \<lfloor>x\<rfloor>"
    by (simp add: le_floor_iff)
  then consider "1 \<le> \<lfloor>x\<rfloor>" | "\<lfloor>x\<rfloor> = 0"
    by linarith
  then show ?thesis
  proof cases
    case 1
    then show ?thesis
      using rne_cases [of x] by linarith
  next
    case 2
    then show ?thesis
      using x by (simp add: round_half_even_def Let_def)
  qed
qed

lemma round_double_0: "round_double 0 = Finite 0"
  by (simp add: round_double_def)

text \<open>The two ways in which a rounding gives a finite value.\<close>

lemma round_double_FiniteE:
  assumes "round_double x = Finite y"
  obtains (zero) "y = 0" and "0 \<le> x" and "\<bar>x\<bar> * 2 ^ 1075 \<le> 1"
  | (normal) e K where "e = max (ilog2 \<bar>x\<bar>) (- 1022)"
      and "K = round_half_even (\<bar>x\<bar> / pow2 (e - 52))"
      and "1 < \<bar>x\<bar> * 2 ^ 1075" and "\<bar>x\<bar> < 2 ^ 1024"
      and "y = (if x < 0 then - 1 else 1) * (of_int K * pow2 (e - 52))"
      and "of_int K * pow2 (e - 52) < 2 ^ 1024"
proof (cases "\<bar>x\<bar> * 2 ^ 1075 \<le> 1")
  case True
  then have "\<bar>x\<bar> < 2 ^ 1024"
    by (simp add: field_simps)
  then show ?thesis
    using assms True zero by (simp add: round_double_def split: if_splits)
next
  case False
  define e where "e = max (ilog2 \<bar>x\<bar>) (- 1022)"
  define K where "K = round_half_even (\<bar>x\<bar> / pow2 (e - 52))"
  have big: "\<not> 2 ^ 1024 \<le> \<bar>x\<bar>" and "\<not> 2 ^ 1024 \<le> of_int K * pow2 (e - 52)"
    and "y = (if x < 0 then - 1 else 1) * (of_int K * pow2 (e - 52))"
    using assms False
    by (auto simp add: round_double_def Let_def e_def K_def split: if_splits)
  then show ?thesis
    using False normal [of e K] e_def K_def by simp
qed

lemma pow2_split: "pow2 (e + int n) = 2 ^ n * pow2 e"
  using pow2_add [of "int n" e] by (simp only: pow2_nat add.commute)

text \<open>The mantissa of a number that is not rounded to zero, before it is rounded.\<close>

lemma normal_mantissa_upper:
  assumes "0 < a" and "e = max (ilog2 a) (- 1022)"
  shows "a / pow2 (e - 52) < 2 ^ 53"
proof -
  have "a < pow2 (ilog2 a + 1)"
    by (rule ilog2_bounds(2) [OF assms(1)])
  also have "\<dots> \<le> pow2 (e + 1)"
    using assms(2) by (intro pow2_mono) simp
  also have "e + 1 = (e - 52) + int 53"
    by simp
  finally have "a < 2 ^ 53 * pow2 (e - 52)"
    by (simp only: pow2_split)
  then show ?thesis
    using pow2_pos [of "e - 52"] by (simp only: pos_divide_less_eq)
qed

lemma normal_mantissa_lower:
  assumes "0 < a" and "e = max (ilog2 a) (- 1022)" and "- 1022 \<le> ilog2 a"
  shows "2 ^ 52 \<le> a / pow2 (e - 52)"
proof -
  have e: "e = ilog2 a"
    using assms(2,3) by simp
  have "pow2 ((e - 52) + int 52) = 2 ^ 52 * pow2 (e - 52)"
    by (rule pow2_split)
  moreover have "(e - 52) + int 52 = e"
    by simp
  ultimately have "pow2 e = 2 ^ 52 * pow2 (e - 52)"
    by simp
  then have "2 ^ 52 * pow2 (e - 52) \<le> a"
    using ilog2_bounds(1) [OF assms(1)] e by simp
  then show ?thesis
    using pow2_pos [of "e - 52"] by (simp only: pos_le_divide_eq)
qed

lemma normal_mantissa_half:
  assumes "0 < a" and "1 < a * 2 ^ 1075" and "e = max (ilog2 a) (- 1022)"
  shows "1 / 2 < a / pow2 (e - 52)"
proof (cases "- 1022 \<le> ilog2 a")
  case True
  have "(1 / 2 :: rat) < 2 ^ 52"
    by simp
  then show ?thesis
    using normal_mantissa_lower [OF assms(1,3) True] by linarith
next
  case False
  define P :: rat where "P = 2 ^ 1074"
  have "e - 52 = - int 1074"
    using False assms(3) by simp
  then have ulp: "pow2 (e - 52) = 1 / P"
    by (simp only: pow2_neg_nat P_def)
  have "(2::rat) ^ 1075 = 2 * P"
    by (simp add: P_def)
  then have "1 < 2 * (a * P)"
    using assms(2) by simp
  then have "1 / 2 < a * P"
    by linarith
  then show ?thesis
    by (simp add: ulp)
qed

lemma pow2_le_D: "pow2 a \<le> pow2 b \<Longrightarrow> a \<le> b"
  using pow2_strict_mono [of b a] by (cases "a \<le> b") simp_all

lemma pow2_less_D: "pow2 a < pow2 b \<Longrightarrow> a < b"
  using pow2_mono [of b a] by (cases "a < b") simp_all

lemma normal_mantissa_pos:
  assumes "0 < a" and "1 < a * 2 ^ 1075" and "e = max (ilog2 a) (- 1022)"
  shows "0 < of_int (round_half_even (a / pow2 (e - 52))) * pow2 (e - 52)"
proof -
  have "1 \<le> round_half_even (a / pow2 (e - 52))"
    by (rule rne_pos) (rule normal_mantissa_half [OF assms])
  then have "(0::rat) < of_int (round_half_even (a / pow2 (e - 52)))"
    by simp
  then show ?thesis
    using pow2_pos [of "e - 52"] by (rule mult_pos_pos)
qed

text \<open>Rounding is symmetric about zero.\<close>

lemma round_double_minus:
  assumes "0 < x"
  shows "round_double (- x) = dbl_neg (round_double x)"
proof (cases "2 ^ 1024 \<le> x \<or> x * 2 ^ 1075 \<le> 1")
  case True
  then show ?thesis
    using assms by (auto simp: round_double_def dbl_neg_def)
next
  case False
  define e where "e = max (ilog2 x) (- 1022)"
  define m where "m = of_int (round_half_even (x / pow2 (e - 52))) * pow2 (e - 52)"
  have "0 < m"
    unfolding m_def using assms False e_def by (intro normal_mantissa_pos) simp_all
  moreover have "round_double x = (if 2 ^ 1024 \<le> m then PosInf else Finite m)"
    using assms False by (simp add: round_double_def Let_def e_def m_def)
  moreover have "round_double (- x) = (if 2 ^ 1024 \<le> m then NegInf else Finite (- m))"
    using assms False by (simp add: round_double_def Let_def e_def m_def)
  ultimately show ?thesis
    by (simp add: dbl_neg_def)
qed

text \<open>Rounding moves a number by at most half a unit in the last place.\<close>

lemma mantissa_error:
  assumes "0 < u"
  shows "\<bar>of_int (round_half_even (a / u)) * u - a\<bar> \<le> u / 2"
proof -
  define K :: rat where "K = of_int (round_half_even (a / u))"
  have "\<bar>K - a / u\<bar> * u \<le> 1 / 2 * u"
    unfolding K_def using rne_bounds [of "a / u"] assms by (intro mult_right_mono) simp_all
  moreover have "(K - a / u) * u = K * u - a"
    using assms by (simp add: left_diff_distrib)
  then have "\<bar>K * u - a\<bar> = \<bar>K - a / u\<bar> * \<bar>u\<bar>"
    by (simp only: abs_mult [symmetric])
  then have "\<bar>K * u - a\<bar> = \<bar>K - a / u\<bar> * u"
    using assms by simp
  ultimately show ?thesis
    unfolding K_def by simp
qed

lemma pow2_33: "pow2 33 = 2 ^ 33"
  using pow2_nat [of 33] by simp

text \<open>Up to \<open>2\<^sup>3\<^sup>3\<close> that is at most \<open>2\<^sup>-\<^sup>2\<^sup>1\<close>, and from \<open>2\<^sup>3\<^sup>3\<close> on the result is at least \<open>2\<^sup>3\<^sup>3\<close>.\<close>

lemma round_double_error:
  assumes "round_double x = Finite y" and "\<bar>x\<bar> \<le> 2 ^ 33"
  shows "\<bar>y - x\<bar> \<le> 1 / 2 ^ 21"
  using assms(1)
proof (cases rule: round_double_FiniteE)
  case zero
  have "\<bar>x\<bar> \<le> 1 / 2 ^ 1075"
    using zero(3) by (simp add: pos_le_divide_eq)
  also have "\<dots> \<le> 1 / 2 ^ 21"
    by simp
  finally show ?thesis
    using zero(1) by simp
next
  case (normal e K)
  define a where "a = \<bar>x\<bar>"
  define u where "u = pow2 (e - 52)"
  have a: "0 < a" "e = max (ilog2 a) (- 1022)" "K = round_half_even (a / u)"
    using normal(1-3) by (auto simp: a_def u_def)
  have u: "0 < u"
    unfolding u_def by (rule pow2_pos)
  have err: "\<bar>of_int K * u - a\<bar> \<le> u / 2"
    unfolding a(3) by (rule mantissa_error [OF u])
  have yx: "\<bar>y - x\<bar> = \<bar>of_int K * u - a\<bar>"
    using normal(5) by (auto simp: a_def u_def)
  have "pow2 (ilog2 a) \<le> pow2 33"
    using ilog2_bounds(1) [OF a(1)] assms(2) by (simp add: a_def pow2_33)
  then have "ilog2 a \<le> 33"
    by (rule pow2_le_D)
  then have e33: "e \<le> 33"
    using a(2) by simp
  show ?thesis
  proof (cases "e \<le> 32")
    case True
    then have "u \<le> pow2 (- int 20)"
      unfolding u_def by (intro pow2_mono) simp
    then have "u \<le> 1 / 2 ^ 20"
      by (simp only: pow2_neg_nat)
    then have "u / 2 \<le> 1 / 2 ^ 21"
      by simp
    then show ?thesis
      using err yx by linarith
  next
    case False
    then have e: "e = 33" "ilog2 a = 33"
      using e33 a(2) by simp_all
    have "2 ^ 33 \<le> a"
      using ilog2_bounds(1) [OF a(1)] e(2) by (simp add: pow2_33)
    then have a33: "a = 2 ^ 33"
      using assms(2) by (simp add: a_def)
    have "u = pow2 (- int 19)"
      by (simp add: u_def e)
    then have u19: "u = 1 / 2 ^ 19"
      by (simp only: pow2_neg_nat)
    have "a / u = of_int (2 ^ 52)"
      by (simp add: a33 u19)
    then have "K = 2 ^ 52"
      unfolding a(3) by (simp only: rne_of_int)
    then have "of_int K * u = a"
      by (simp add: a33 u19)
    then show ?thesis
      using yx by simp
  qed
qed

lemma round_double_big:
  assumes "round_double x = Finite y" and "2 ^ 33 \<le> \<bar>x\<bar>"
  shows "2 ^ 33 \<le> \<bar>y\<bar>"
  using assms(1)
proof (cases rule: round_double_FiniteE)
  case zero
  have "\<bar>x\<bar> * 2 ^ 1075 \<le> 1"
    by (rule zero(3))
  moreover have "1 * 2 ^ 1075 \<le> \<bar>x\<bar> * (2 ^ 1075 :: rat)"
    using assms(2) by (intro mult_right_mono) simp_all
  ultimately show ?thesis
    by simp
next
  case (normal e K)
  define a where "a = \<bar>x\<bar>"
  define u where "u = pow2 (e - 52)"
  have a: "0 < a" "e = max (ilog2 a) (- 1022)" "K = round_half_even (a / u)"
    using normal(1-3) by (auto simp: a_def u_def)
  have u: "0 < u"
    unfolding u_def by (rule pow2_pos)
  have "pow2 33 < pow2 (ilog2 a + 1)"
    using ilog2_bounds(2) [OF a(1)] assms(2) by (simp add: a_def pow2_33)
  then have il: "33 \<le> ilog2 a"
    using pow2_less_D [of 33 "ilog2 a + 1"] by simp
  then have e: "e = ilog2 a"
    using a(2) by simp
  have "of_int (2 ^ 52) \<le> a / u"
    using normal_mantissa_lower [OF a(1,2)] il by (simp add: u_def)
  then have "2 ^ 52 \<le> K"
    unfolding a(3) by (rule rne_ge)
  then have "(2 ^ 52 :: rat) \<le> of_int K"
    by (metis of_int_le_iff of_int_numeral of_int_power)
  then have "2 ^ 52 * u \<le> of_int K * u"
    using u by (intro mult_right_mono) simp_all
  moreover have "pow2 ((e - 52) + int 52) = 2 ^ 52 * u"
    unfolding u_def by (rule pow2_split)
  moreover have "(e - 52) + int 52 = e"
    by simp
  ultimately have "pow2 e \<le> of_int K * u"
    by simp
  moreover have "pow2 33 \<le> pow2 e"
    using il e by (intro pow2_mono) simp
  moreover have "\<bar>y\<bar> = \<bar>of_int K * u\<bar>"
    using normal(5) by (auto simp: u_def)
  ultimately show ?thesis
    by (simp add: pow2_33)
qed

lemma of_int_pow2_le: "(2 ^ n :: rat) \<le> of_int K \<longleftrightarrow> 2 ^ n \<le> K"
proof -
  have "(2 ^ n :: rat) = of_int (2 ^ n)"
    by simp
  then show ?thesis
    by (simp only: of_int_le_iff)
qed

lemma of_int_le_pow2: "of_int K \<le> (2 ^ n :: rat) \<longleftrightarrow> K \<le> 2 ^ n"
proof -
  have "(2 ^ n :: rat) = of_int (2 ^ n)"
    by simp
  then show ?thesis
    by (simp only: of_int_le_iff)
qed

lemma of_int_less_pow2: "of_int K < (2 ^ n :: rat) \<longleftrightarrow> K < 2 ^ n"
proof -
  have "(2 ^ n :: rat) = of_int (2 ^ n)"
    by simp
  then show ?thesis
    by (simp only: of_int_less_iff)
qed

lemma of_int_pow2_less: "(2 ^ n :: rat) < of_int K \<longleftrightarrow> 2 ^ n < K"
proof -
  have "(2 ^ n :: rat) = of_int (2 ^ n)"
    by simp
  then show ?thesis
    by (simp only: of_int_less_iff)
qed

lemma pow2_shift: "d = e + int n \<Longrightarrow> pow2 d = 2 ^ n * pow2 e"
  by (simp only: pow2_split)

text \<open>What \<^verbatim>\<open>round_double\<close> returns has a binary64 representation.\<close>

lemma binary64_exponent:
  assumes "0 < m" and "- 1022 \<le> e" and "m < pow2 (e + 1)" and "pow2 e \<le> m \<or> e = - 1022"
  shows "max (ilog2 m) (- 1022) = e"
proof (cases "pow2 e \<le> m")
  case True
  then have "ilog2 m = e"
    using assms(1,3) by (intro ilog2_unique)
  then show ?thesis
    using assms(2) by simp
next
  case False
  then have e: "e = - 1022"
    using assms(4) by simp
  have "pow2 (ilog2 m) < pow2 e"
    using ilog2_bounds(1) [OF assms(1)] False by simp
  then have "ilog2 m < e"
    by (rule pow2_less_D)
  then show ?thesis
    using e by simp
qed

lemma round_double_binary64:
  assumes "round_double x = Finite y"
  shows "binary64 y"
  using assms
proof (cases rule: round_double_FiniteE)
  case zero
  have "\<bar>0::rat\<bar> = of_int 0 * pow2 (max (ilog2 \<bar>0\<bar>) (- 1022) - 52)"
    by simp
  then have "\<exists>M::int. \<bar>0::rat\<bar> = of_int M * pow2 (max (ilog2 \<bar>0\<bar>) (- 1022) - 52)"
    by (rule exI)
  then show ?thesis
    unfolding binary64_def zero(1) by simp
next
  case (normal e K)
  define a where "a = \<bar>x\<bar>"
  define u where "u = pow2 (e - 52)"
  define m where "m = of_int K * u"
  have a: "0 < a" "e = max (ilog2 a) (- 1022)" "K = round_half_even (a / u)"
      "1 < a * 2 ^ 1075"
    using normal(1-3) by (auto simp: a_def u_def)
  have u: "0 < u"
    unfolding u_def by (rule pow2_pos)
  have m: "0 < m"
    unfolding m_def a(3) u_def by (rule normal_mantissa_pos [OF a(1,4,2)])
  have ym: "\<bar>y\<bar> = m"
    using normal(5) m by (auto simp: m_def u_def)
  have fin: "\<bar>y\<bar> < 2 ^ 1024"
    unfolding ym m_def u_def by (rule normal(6))
  have el: "- 1022 \<le> e"
    using a(2) by simp
  have p0: "pow2 e = 2 ^ 52 * u"
    unfolding u_def by (rule pow2_shift) simp
  have p1: "pow2 (e + 1) = 2 ^ 53 * u"
    unfolding u_def by (rule pow2_shift) simp
  have p2: "pow2 (e + 1 + 1) = 2 ^ 54 * u"
    unfolding u_def by (rule pow2_shift) simp
  have "a / u \<le> of_int (2 ^ 53)"
    using normal_mantissa_upper [OF a(1,2)] by (simp add: u_def)
  then have K53: "K \<le> 2 ^ 53"
    unfolding a(3) by (rule rne_le)
  have low: "pow2 e \<le> m \<or> e = - 1022"
  proof (cases "- 1022 \<le> ilog2 a")
    case True
    have "of_int (2 ^ 52) \<le> a / u"
      using normal_mantissa_lower [OF a(1,2) True] by (simp add: u_def)
    then have "2 ^ 52 \<le> K"
      unfolding a(3) by (rule rne_ge)
    then have "(2 ^ 52 :: rat) \<le> of_int K"
      by (simp only: of_int_pow2_le)
    then have "2 ^ 52 * u \<le> m"
      unfolding m_def using u by (intro mult_right_mono) simp_all
    then show ?thesis
      by (simp add: p0)
  next
    case False
    then show ?thesis
      using a(2) by simp
  qed
  show ?thesis
  proof (cases "K < 2 ^ 53")
    case True
    then have "(of_int K :: rat) < 2 ^ 53"
      by (simp only: of_int_less_pow2)
    then have "m < 2 ^ 53 * u"
      unfolding m_def using u by (intro mult_strict_right_mono)
    then have "m < pow2 (e + 1)"
      by (simp add: p1)
    then have "max (ilog2 m) (- 1022) = e"
      using m el low by (intro binary64_exponent)
    then have "\<bar>y\<bar> = of_int K * pow2 (max (ilog2 \<bar>y\<bar>) (- 1022) - 52)"
      by (simp add: ym m_def u_def)
    then have "\<exists>M::int. \<bar>y\<bar> = of_int M * pow2 (max (ilog2 \<bar>y\<bar>) (- 1022) - 52)"
      by (rule exI)
    then show ?thesis
      unfolding binary64_def using fin by simp
  next
    case False
    then have "K = 2 ^ 53"
      using K53 by simp
    then have mm: "m = 2 ^ 53 * u"
      by (simp add: m_def)
    have "pow2 (e + 1) \<le> m" "m < pow2 (e + 1 + 1)"
      unfolding mm p1 p2 using u by simp_all
    then have "ilog2 m = e + 1"
      using m by (intro ilog2_unique)
    then have "max (ilog2 m) (- 1022) - 52 = (e - 52) + int 1"
      using el by simp
    then have "pow2 (max (ilog2 m) (- 1022) - 52) = 2 ^ 1 * u"
      unfolding u_def by (rule pow2_shift)
    then have "\<bar>y\<bar> = of_int (2 ^ 52) * pow2 (max (ilog2 \<bar>y\<bar>) (- 1022) - 52)"
      by (simp add: ym mm)
    then have "\<exists>M::int. \<bar>y\<bar> = of_int M * pow2 (max (ilog2 \<bar>y\<bar>) (- 1022) - 52)"
      by (rule exI)
    then show ?thesis
      unfolding binary64_def using fin by simp
  qed
qed

text \<open>A number close enough to a binary64 value of the same binade is rounded to it.\<close>

lemma round_double_nearest:
  assumes "binary64 q" and "0 < q" and "- 1022 \<le> ilog2 q"
    and "pow2 (ilog2 q) \<le> x" and "\<bar>x - q\<bar> < pow2 (ilog2 q - 53)"
  shows "round_double x = Finite q"
proof -
  define e where "e = ilog2 q"
  define u where "u = pow2 (e - 52)"
  obtain M :: int where M: "q = of_int M * u"
    using assms(1,2,3) by (auto simp: binary64_def e_def u_def)
  have fin: "q < 2 ^ 1024"
    using assms(1,2) by (simp add: binary64_def)
  have u: "0 < u"
    unfolding u_def by (rule pow2_pos)
  have p1: "pow2 (e + 1) = 2 ^ 53 * u"
    unfolding u_def by (rule pow2_shift) simp
  have "u = 2 ^ 1 * pow2 (e - 53)"
    unfolding u_def by (rule pow2_shift) simp
  then have half: "pow2 (e - 53) = u / 2"
    by simp
  have "q < pow2 (e + 1)"
    unfolding e_def by (rule ilog2_bounds(2) [OF assms(2)])
  then have "of_int M * u < 2 ^ 53 * u"
    unfolding p1 M .
  then have "(of_int M :: rat) < 2 ^ 53"
    using u by (simp only: mult_less_cancel_right_pos)
  then have "M < 2 ^ 53"
    by (simp only: of_int_less_pow2)
  then have "M + 1 \<le> 2 ^ 53"
    by simp
  then have "(of_int (M + 1) :: rat) \<le> 2 ^ 53"
    by (simp only: of_int_le_pow2)
  then have "of_int (M + 1) * u \<le> 2 ^ 53 * u"
    using u by (intro mult_right_mono) simp_all
  then have q_up: "q + u \<le> pow2 (e + 1)"
    by (simp add: M p1 distrib_right)
  have xq: "\<bar>x - q\<bar> < u / 2"
    using assms(5) by (simp add: e_def [symmetric] half)
  have x_low: "pow2 e \<le> x"
    using assms(4) by (simp add: e_def)
  have x_pos: "0 < x"
    using x_low pow2_pos [of e] by linarith
  have x_up: "x < pow2 (e + 1)"
    using xq q_up u by linarith
  have ex: "ilog2 x = e"
    using x_pos x_low x_up by (rule ilog2_unique)
  have "pow2 e \<le> q"
    using ilog2_bounds(1) [OF assms(2)] by (simp add: e_def)
  then have "pow2 e < pow2 1024"
    using fin pow2_nat [of 1024] by simp
  then have "e + 1 \<le> 1024"
    using pow2_less_D [of e 1024] by simp
  then have "pow2 (e + 1) \<le> pow2 1024"
    by (rule pow2_mono)
  then have x_fin: "x < 2 ^ 1024"
    using x_up pow2_nat [of 1024] by simp
  have "pow2 (- int 1022) \<le> pow2 e"
    using assms(3) by (intro pow2_mono) (simp add: e_def)
  then have "1 / 2 ^ 1022 \<le> x"
    using x_low by (simp only: pow2_neg_nat)
  moreover have "(1 :: rat) / 2 ^ 1075 < 1 / 2 ^ 1022"
    by simp
  ultimately have "1 / 2 ^ 1075 < x"
    by linarith
  then have x_big: "1 < x * 2 ^ 1075"
    by (simp add: pos_divide_less_eq)
  have "\<bar>x / u - of_int M\<bar> * u = \<bar>x / u - of_int M\<bar> * \<bar>u\<bar>"
    using u by simp
  also have "\<dots> = \<bar>(x / u - of_int M) * u\<bar>"
    by (simp only: abs_mult)
  also have "(x / u - of_int M) * u = x - q"
    using u by (simp add: left_diff_distrib M)
  finally have "\<bar>x / u - of_int M\<bar> * u < 1 / 2 * u"
    using xq by simp
  then have "\<bar>x / u - of_int M\<bar> < 1 / 2"
    using u by (simp only: mult_less_cancel_right_pos)
  then have K: "round_half_even (x / u) = M"
    by (rule rne_eq)
  have emax: "max (ilog2 x) (- 1022) = e"
    using ex assms(3) by (simp add: e_def)
  show ?thesis
    using x_pos x_fin x_big assms(2) fin
    by (simp add: round_double_def Let_def emax K M [symmetric] u_def [symmetric])
qed

text \<open>Rounding to six decimals.\<close>

lemma six_decimals_minus: "six_decimals (- q) = - six_decimals q"
  by (simp add: six_decimals_def rne_minus)

lemma six_decimals_error: "\<bar>six_decimals q - q\<bar> \<le> 1 / 2000000"
proof -
  define u :: rat where "u = 1 / 1000000"
  define K :: rat where "K = of_int (round_half_even (q * 1000000))"
  have u: "0 < u"
    by (simp add: u_def)
  have "q / u = q * 1000000"
    by (simp add: u_def)
  then have "\<bar>K * u - q\<bar> \<le> u / 2"
    using mantissa_error [OF u, of q] by (simp only: K_def)
  moreover have "six_decimals q = K * u"
    by (simp add: six_decimals_def K_def u_def)
  moreover have "u / 2 = 1 / 2000000"
    by (simp add: u_def)
  ultimately show ?thesis
    by (simp only:)
qed

lemma six_decimals_near:
  assumes "\<bar>q - of_int m / 1000000\<bar> < 1 / 2000000"
  shows "six_decimals q = of_int m / 1000000"
proof -
  have "\<bar>q - of_int m / 1000000\<bar> * 1000000 < 1 / 2000000 * 1000000"
    using assms by (intro mult_strict_right_mono) simp_all
  moreover have "\<bar>q - of_int m / 1000000\<bar> * 1000000 = \<bar>q * 1000000 - of_int m\<bar>"
  proof -
    have "\<bar>q - of_int m / 1000000\<bar> * 1000000 = \<bar>q - of_int m / 1000000\<bar> * \<bar>1000000\<bar>"
      by simp
    also have "\<dots> = \<bar>(q - of_int m / 1000000) * 1000000\<bar>"
      by (simp only: abs_mult)
    finally show ?thesis
      by (simp add: left_diff_distrib)
  qed
  ultimately have "\<bar>q * 1000000 - of_int m\<bar> < 1 / 2"
    by simp
  then have "round_half_even (q * 1000000) = m"
    by (rule rne_eq)
  then show ?thesis
    by (simp add: six_decimals_def)
qed

lemma six_decimals_of_int: "six_decimals (of_int k) = of_int k"
proof -
  have "round_half_even (of_int (k * 1000000)) = k * 1000000"
    by (rule rne_of_int)
  moreover have "(of_int (k * 1000000) :: rat) = of_int k * 1000000"
    by simp
  ultimately have "round_half_even (of_int k * 1000000) = k * 1000000"
    by simp
  then show ?thesis
    by (simp add: six_decimals_def)
qed

lemma six_decimals_bound:
  assumes "\<bar>q\<bar> \<le> of_int B"
  shows "\<bar>six_decimals q\<bar> \<le> of_int B"
proof -
  have "q * 1000000 \<le> of_int (B * 1000000)" "of_int (- (B * 1000000)) \<le> q * 1000000"
    using assms by simp_all
  then have "round_half_even (q * 1000000) \<le> B * 1000000"
      "- (B * 1000000) \<le> round_half_even (q * 1000000)"
    using rne_le [of "q * 1000000" "B * 1000000"] rne_ge [of "- (B * 1000000)" "q * 1000000"]
    by blast+
  then have "(of_int (round_half_even (q * 1000000)) :: rat) \<le> of_int (B * 1000000)"
      "(of_int (- (B * 1000000)) :: rat) \<le> of_int (round_half_even (q * 1000000))"
    by (simp_all only: of_int_le_iff)
  then show ?thesis
    by (simp add: six_decimals_def abs_le_iff)
qed

text \<open>
  A constant below \<open>2\<^sup>3\<^sup>3\<close> that is the double nearest to a number of at most six decimals
  is the double nearest to its own rounding to six decimals.
\<close>

lemma six_decimal_constant:
  assumes "round_double (of_int m / 1000000) = Finite q" and "\<bar>q\<bar> < 2 ^ 33"
  shows "six_decimals q = of_int m / 1000000" and "round_double (six_decimals q) = Finite q"
proof -
  define x :: rat where "x = of_int m / 1000000"
  have "\<not> 2 ^ 33 \<le> \<bar>x\<bar>"
    using round_double_big [OF assms(1)] assms(2) by (auto simp: x_def)
  then have "\<bar>q - x\<bar> \<le> 1 / 2 ^ 21"
    using round_double_error [OF assms(1)] by (simp add: x_def)
  moreover have "(1 :: rat) / 2 ^ 21 < 1 / 2000000"
    by simp
  ultimately have "\<bar>q - of_int m / 1000000\<bar> < 1 / 2000000"
    unfolding x_def by linarith
  then show eq: "six_decimals q = of_int m / 1000000"
    by (rule six_decimals_near)
  show "round_double (six_decimals q) = Finite q"
    unfolding eq by (rule assms(1))
qed

text \<open>A finite constant from \<open>2\<^sup>3\<^sup>3\<close> on is the double nearest to its rounding to six decimals.\<close>

lemma big_constant_pos:
  assumes "binary64 q" and "2 ^ 33 \<le> q"
  shows "round_double (six_decimals q) = Finite q"
proof -
  define e where "e = ilog2 q"
  define u where "u = pow2 (e - 52)"
  have q: "0 < q"
    using assms(2) by (rule less_le_trans [rotated]) simp
  have "pow2 33 < pow2 (e + 1)"
    using ilog2_bounds(2) [OF q] assms(2) by (simp add: e_def pow2_33)
  then have e33: "33 \<le> e"
    using pow2_less_D [of 33 "e + 1"] by simp
  then obtain M :: int where M: "q = of_int M * u"
    using assms(1) q by (auto simp: binary64_def e_def u_def)
  have u: "0 < u"
    unfolding u_def by (rule pow2_pos)
  have p0: "pow2 e = 2 ^ 52 * u"
    unfolding u_def by (rule pow2_shift) simp
  have "pow2 (- int 19) \<le> u"
    unfolding u_def using e33 by (intro pow2_mono) simp
  then have u19: "1 / 2 ^ 19 \<le> u"
    by (simp only: pow2_neg_nat)
  have "u = 2 ^ 1 * pow2 (e - 53)"
    unfolding u_def by (rule pow2_shift) simp
  then have half: "pow2 (e - 53) = u / 2"
    by simp
  have err: "\<bar>six_decimals q - q\<bar> \<le> 1 / 2000000"
    by (rule six_decimals_error)
  have "(1 :: rat) / 2000000 < 1 / 2 ^ 19 / 2"
    by simp
  then have close: "\<bar>six_decimals q - q\<bar> < pow2 (ilog2 q - 53)"
    using err u19 by (simp add: e_def [symmetric] half)
  have low: "pow2 (ilog2 q) \<le> six_decimals q"
  proof (cases "q = pow2 e")
    case True
    have "pow2 e = pow2 (int (nat e))"
      using e33 by simp
    also have "\<dots> = of_int (2 ^ nat e)"
      by (simp only: pow2_nat) simp
    finally have "six_decimals q = q"
      using True by (simp only: six_decimals_of_int)
    then show ?thesis
      using ilog2_bounds(1) [OF q] by simp
  next
    case False
    have "pow2 e \<le> q"
      unfolding e_def by (rule ilog2_bounds(1) [OF q])
    then have "pow2 e < q"
      using False by simp
    then have "2 ^ 52 * u < of_int M * u"
      unfolding p0 M .
    then have "(2 ^ 52 :: rat) < of_int M"
      using u by (simp only: mult_less_cancel_right_pos)
    then have "2 ^ 52 < M"
      by (simp only: of_int_pow2_less)
    then have "2 ^ 52 + 1 \<le> M"
      by simp
    then have "(of_int (2 ^ 52 + 1) :: rat) \<le> of_int M"
      by (simp only: of_int_le_iff)
    then have "of_int (2 ^ 52 + 1) * u \<le> of_int M * u"
      using u by (intro mult_right_mono) simp_all
    then have "pow2 e + u \<le> q"
      by (simp add: p0 M distrib_right)
    moreover have "(1 :: rat) / 2000000 \<le> 1 / 2 ^ 19"
      by simp
    ultimately have "pow2 e \<le> six_decimals q"
      using err u19 by linarith
    then show ?thesis
      by (simp add: e_def)
  qed
  show ?thesis
    using assms(1) q _ low close
  proof (rule round_double_nearest)
    show "- 1022 \<le> ilog2 q"
      using e33 by (simp add: e_def)
  qed
qed

lemma binary64_minus: "binary64 (- q) = binary64 q"
  by (simp add: binary64_def)

lemma big_constant:
  assumes "binary64 q" and "2 ^ 33 \<le> \<bar>q\<bar>"
  shows "round_double (six_decimals q) = Finite q" and "six_decimals q \<noteq> 0"
proof -
  have pos: "round_double (six_decimals \<bar>q\<bar>) = Finite \<bar>q\<bar>"
    using assms by (intro big_constant_pos) (simp_all add: binary64_def)
  have nz: "0 < six_decimals \<bar>q\<bar>"
  proof (rule ccontr)
    assume "\<not> 0 < six_decimals \<bar>q\<bar>"
    moreover have "\<bar>six_decimals \<bar>q\<bar> - \<bar>q\<bar>\<bar> \<le> 1 / 2000000"
      by (rule six_decimals_error)
    ultimately have "\<bar>q\<bar> \<le> 1 / 2000000"
      by linarith
    then show False
      using assms(2) by simp
  qed
  show "round_double (six_decimals q) = Finite q"
  proof (cases "q < 0")
    case True
    then have "six_decimals q = - six_decimals \<bar>q\<bar>"
      using six_decimals_minus [of "\<bar>q\<bar>"] by simp
    then have "round_double (six_decimals q) = dbl_neg (Finite \<bar>q\<bar>)"
      using round_double_minus [OF nz] pos by simp
    then show ?thesis
      using True by (simp add: dbl_neg_def)
  next
    case False
    then show ?thesis
      using pos by simp
  qed
  show "six_decimals q \<noteq> 0"
    using nz six_decimals_minus [of "\<bar>q\<bar>"] by (cases "q < 0") auto
qed

text \<open>Rounding a number of at most \<open>2\<^sup>3\<^sup>3\<close> gives a finite value, unless it is negative and tiny.\<close>

lemma round_double_small:
  assumes "\<bar>x\<bar> \<le> 2 ^ 33" and "0 \<le> x \<or> 1 < \<bar>x\<bar> * 2 ^ 1075"
  shows "\<exists>y. round_double x = Finite y"
proof (cases "\<bar>x\<bar> * 2 ^ 1075 \<le> 1")
  case True
  moreover have "\<not> 2 ^ 1024 \<le> \<bar>x\<bar>"
    using assms(1) by simp
  ultimately show ?thesis
    using assms(2) by (simp add: round_double_def)
next
  case False
  define a where "a = \<bar>x\<bar>"
  define e where "e = max (ilog2 a) (- 1022)"
  define u where "u = pow2 (e - 52)"
  define m where "m = of_int (round_half_even (a / u)) * u"
  have a: "0 < a"
    using False by (cases "x = 0") (simp_all add: a_def)
  have u: "0 < u"
    unfolding u_def by (rule pow2_pos)
  have "pow2 (ilog2 a) \<le> pow2 33"
    using ilog2_bounds(1) [OF a] assms(1) by (simp add: a_def pow2_33)
  then have "ilog2 a \<le> 33"
    by (rule pow2_le_D)
  then have "u \<le> pow2 (- int 19)"
    unfolding u_def e_def by (intro pow2_mono) simp
  then have "u \<le> 1 / 2 ^ 19"
    by (simp only: pow2_neg_nat)
  then have "u / 2 \<le> 1"
    by simp
  moreover have "\<bar>m - a\<bar> \<le> u / 2"
    unfolding m_def by (rule mantissa_error [OF u])
  ultimately have "m \<le> 2 ^ 33 + 1"
    using assms(1) unfolding a_def by linarith
  then have "\<not> 2 ^ 1024 \<le> m"
    by simp
  moreover have "\<not> 2 ^ 1024 \<le> \<bar>x\<bar>"
    using assms(1) by simp
  ultimately show ?thesis
    using False by (simp add: round_double_def Let_def a_def e_def u_def m_def)
qed

section \<open>Rendering a formula and parsing the text again\<close>

lemma strcat_Inr: "strcat cfg text s = Inr text' \<Longrightarrow> text' = text @ s"
  by (simp add: strcat_def split: if_splits)

lemma formula_to_string_loop_join:
  "formula_to_string_loop cfg ts buf = Inr s \<Longrightarrow>
   \<exists>strs. list_all2 (\<lambda>t str. term_to_string cfg t = Inr str) ts strs
     \<and> s = buf @ join_plus strs"
proof (induction ts arbitrary: buf s)
  case Nil
  then show ?case by simp
next
  case (Cons t ts)
  from Cons.prems obtain str where str: "term_to_string cfg t = Inr str"
    by (cases "term_to_string cfg t") simp_all
  from Cons.prems str obtain buf1 where buf1: "strcat cfg buf str = Inr buf1"
    by (cases "strcat cfg buf str") simp_all
  have t1: "buf1 = buf @ str"
    using buf1 by (rule strcat_Inr)
  show ?case
  proof (cases "ts = []")
    case True
    then have "s = buf @ str"
      using Cons.prems str buf1 t1 by simp
    then show ?thesis
      using str True by (intro exI [of _ "[str]"]) simp
  next
    case False
    from Cons.prems str buf1 False obtain buf2
      where buf2: "strcat cfg buf1 ''+'' = Inr buf2"
      by (cases "strcat cfg buf1 ''+''") simp_all
    have t2: "buf2 = buf @ str @ ''+''"
      using strcat_Inr [OF buf2] t1 by simp
    have "formula_to_string_loop cfg ts buf2 = Inr s"
      using Cons.prems str buf1 False buf2 by simp
    from Cons.IH [OF this] obtain strs
      where strs: "list_all2 (\<lambda>t str. term_to_string cfg t = Inr str) ts strs"
        and s: "s = buf2 @ join_plus strs"
      by blast
    have "strs \<noteq> []"
      using strs False by (auto simp: list_all2_Cons1 neq_Nil_conv)
    then have "s = buf @ join_plus (str # strs)"
      using s t2 by simp
    then show ?thesis
      using str strs by (intro exI [of _ "str # strs"]) simp
  qed
qed

lemma strtok_plus_token:
  "CHR ''+'' \<notin> set s \<Longrightarrow> strtok_plus (s @ rest) cur = strtok_plus rest (cur @ s)"
  by (induction s arbitrary: cur) auto

lemma strtok_plus_join:
  "(\<And>str. str \<in> set strs \<Longrightarrow> str \<noteq> [] \<and> CHR ''+'' \<notin> set str) \<Longrightarrow>
   strtok_plus (join_plus strs) [] = strs"
proof (induction strs)
  case Nil
  then show ?case by simp
next
  case (Cons x xs)
  have x: "x \<noteq> []" "CHR ''+'' \<notin> set x"
    using Cons.prems [of x] by simp_all
  show ?case
  proof (cases "xs = []")
    case True
    then show ?thesis
      using x strtok_plus_token [OF x(2), of "[]" "[]"] by simp
  next
    case False
    have "strtok_plus (join_plus xs) [] = xs"
      using Cons.prems by (intro Cons.IH) simp
    then show ?thesis
      using x False strtok_plus_token [OF x(2), of "CHR ''+'' # join_plus xs" "[]"] by simp
  qed
qed

text \<open>A formula that \<^verbatim>\<open>string_to_formula\<close> returns has at most \<open>MAX_TERMS\<close> terms.\<close>

lemma string_to_formula_loop_bound:
  "string_to_formula_loop cfg toks acc = Inr (Some f) \<Longrightarrow> length acc \<le> MAX_TERMS \<Longrightarrow>
   num_terms f \<le> MAX_TERMS"
proof (induction toks arbitrary: acc)
  case Nil
  then show ?case by auto
next
  case (Cons tok toks)
  obtain number n where conv: "strtod tok = (number, n)"
    by (cases "strtod tok")
  show ?case
  proof (cases "n \<noteq> 0")
    case True
    then have "length acc < MAX_TERMS"
      and "string_to_formula_loop cfg toks (acc @ [Constant number]) = Inr (Some f)"
      using Cons.prems(1) conv by (auto split: if_splits)
    then show ?thesis
      by (intro Cons.IH [of "acc @ [Constant number]"]) simp_all
  next
    case False
    then obtain cell where "get_cell_by_reference cfg tok = Some cell"
      using Cons.prems(1) conv by (cases "get_cell_by_reference cfg tok") simp_all
    then have "length acc < MAX_TERMS"
      and "string_to_formula_loop cfg toks (acc @ [CellPtr cell]) = Inr (Some f)"
      using Cons.prems(1) conv False by (auto split: if_splits)
    then show ?thesis
      by (intro Cons.IH [of "acc @ [CellPtr cell]"]) simp_all
  qed
qed

text \<open>Whatever form of number \<^verbatim>\<open>strtod\<close> finds, it converts at least one character.\<close>

lemma scan_mantissa_pos: "scan_mantissa isd s = Some (ip, fp, n) \<Longrightarrow> 0 < n"
  by (auto simp: scan_mantissa_def Let_def split: if_splits)

lemma parse_decimal_pos: "parse_decimal s = Some (v, n) \<Longrightarrow> 0 < n"
  by (auto simp: parse_decimal_def split: option.splits prod.splits dest: scan_mantissa_pos)

lemma parse_hex_pos: "parse_hex s = Some (v, n) \<Longrightarrow> 0 < n"
  by (auto simp: parse_hex_def split: if_splits option.splits prod.splits)

lemma parse_nan_pos: "parse_nan s = Some (v, n) \<Longrightarrow> 0 < n"
  by (auto simp: parse_nan_def Let_def split: if_splits list.splits)

lemma parse_magnitude_pos: "parse_magnitude s = Some (v, n) \<Longrightarrow> 0 < n"
  by (auto simp: parse_magnitude_def split: if_splits option.splits
      dest: parse_decimal_pos parse_hex_pos parse_nan_pos)

lemma parse_decimal_digit: "isdigit d \<Longrightarrow> parse_decimal (d # r) \<noteq> None"
  by (simp add: parse_decimal_def scan_mantissa_def Let_def split: prod.splits)

lemma parse_magnitude_digit: "isdigit d \<Longrightarrow> parse_magnitude (d # r) \<noteq> None"
  using parse_decimal_digit [of d r]
  by (auto simp: parse_magnitude_def split: option.splits)

lemma strtod_digit:
  assumes "isdigit d"
  shows "snd (strtod (d # r)) \<noteq> 0" and "snd (strtod (CHR ''-'' # d # r)) \<noteq> 0"
proof -
  obtain v n where mag: "parse_magnitude (d # r) = Some (v, n)"
    using parse_magnitude_digit [OF assms, of r] by (cases "parse_magnitude (d # r)") auto
  have n: "0 < n"
    using mag by (rule parse_magnitude_pos)
  have plain: "\<not> isspace d" "d \<noteq> CHR ''-''" "d \<noteq> CHR ''+''"
    using assms not_isspace_isdigit not_sign_isdigit by auto
  show "snd (strtod (d # r)) \<noteq> 0"
    using mag n plain by (simp add: strtod_def scan_sign_def)
  show "snd (strtod (CHR ''-'' # d # r)) \<noteq> 0"
    using mag n by (simp add: strtod_def scan_sign_def isspace_def)
qed

text \<open>What \<^verbatim>\<open>%f\<close> prints starts with a digit, after the sign of a negative number.\<close>

lemma dec_str_Cons: "\<exists>d r. isdigit d \<and> dec_str n = d # r"
  using dec_str_not_Nil [of n] dec_str_digits [of _ n]
  by (cases "dec_str n") auto

lemma fmt_f_shape:
  "fmt_f c = ''nan'' \<or> fmt_f c = ''-nan'' \<or> fmt_f c = ''inf'' \<or> fmt_f c = ''-inf''
   \<or> (\<exists>d r. isdigit d \<and> (fmt_f c = d # r \<or> fmt_f c = CHR ''-'' # d # r))"
proof (cases c)
  case (Finite q)
  obtain d r where "isdigit d"
    and "dec_str (nat (round_half_even (\<bar>q\<bar> * 1000000)) div 1000000) = d # r"
    using dec_str_Cons by blast
  then show ?thesis
    using Finite by (auto simp: fmt_f_def Let_def)
next
  case NegZero
  then have "fmt_f c = CHR ''-'' # CHR ''0'' # ''.000000''"
    by (simp add: fmt_f_def)
  moreover have "isdigit CHR ''0''"
    by (simp add: isdigit_def)
  ultimately show ?thesis
    by blast
qed (simp_all add: fmt_f_def)

lemma strtod_fmt_f: "snd (strtod (snprintf 20 (fmt_f c))) \<noteq> 0"
proof -
  consider "fmt_f c = ''nan''" | "fmt_f c = ''-nan''" | "fmt_f c = ''inf''"
    | "fmt_f c = ''-inf''"
    | d r where "isdigit d" "fmt_f c = d # r"
    | d r where "isdigit d" "fmt_f c = CHR ''-'' # d # r"
    using fmt_f_shape [of c] by blast
  then show ?thesis
  proof cases
    case 1
    then show ?thesis by (simp add: snprintf_def strtod_eval)
  next
    case 2
    then show ?thesis by (simp add: snprintf_def strtod_eval)
  next
    case 3
    then show ?thesis by (simp add: snprintf_def strtod_eval)
  next
    case 4
    then show ?thesis by (simp add: snprintf_def strtod_eval)
  next
    case (5 d r)
    then show ?thesis
      using strtod_digit(1) [of d "take 18 r"] by (simp add: snprintf_def take_Cons')
  next
    case (6 d r)
    then show ?thesis
      using strtod_digit(2) [of d "take 17 r"] by (simp add: snprintf_def take_Cons')
  qed
qed

lemma snprintf_fmt_f_not_Nil: "snprintf 20 (fmt_f c) \<noteq> []"
  using fmt_f_shape [of c] by (auto simp: snprintf_def)

lemma no_plus_digit: "isdigit c \<Longrightarrow> c \<noteq> CHR ''+''"
  by (auto simp: isdigit_def)

lemma no_plus_fmt_f: "CHR ''+'' \<notin> set (fmt_f c)"
proof (cases c)
  case (Finite q)
  have "CHR ''+'' \<notin> set (dec_str n)" for n
    using dec_str_digits [of "CHR ''+''" n] no_plus_digit by blast
  moreover have "CHR ''+'' \<notin> set (take k ''000000'')" for k
    by (auto dest: in_set_takeD)
  ultimately show ?thesis
    using Finite by (simp add: fmt_f_def Let_def)
qed (simp_all add: fmt_f_def)

lemma no_plus_snprintf_fmt_f: "CHR ''+'' \<notin> set (snprintf 20 (fmt_f c))"
  using no_plus_fmt_f [of c] by (auto simp: snprintf_def dest: in_set_takeD)

text \<open>A reference string is not a number for \<^verbatim>\<open>strtod\<close>.\<close>

lemma strtod_letter:
  assumes "65 \<le> (of_char c :: nat)" and "(of_char c :: nat) \<le> 90" and "isdigit d"
  shows "strtod (c # d # r) = (Finite 0, 0)"
proof -
  have c: "\<not> isspace c" "c \<noteq> CHR ''-''" "c \<noteq> CHR ''+''" "\<not> isdigit c" "\<not> isxdigit c \<or> True"
      "c \<noteq> CHR ''.''" "\<not> ci_match CHR ''0'' c"
    using assms(1,2) by (auto simp: isspace_def isdigit_def ci_match_def)
  have d: "\<not> ci_match CHR ''n'' d" "\<not> ci_match CHR ''a'' d"
    using assms(3) by (auto simp: isdigit_def ci_match_def)
  show ?thesis
    using c d
    by (simp add: strtod_def scan_sign_def parse_magnitude_def parse_nan_def parse_hex_def
        parse_decimal_def scan_mantissa_def)
qed

text \<open>Every cell of the array is \<^verbatim>\<open>spreadsheet[row][col]\<close> for a row and a column of the grid.\<close>

lemma in_spreadsheet_cell_at:
  assumes "in_spreadsheet cfg p"
  obtains row col where "p = cell_at cfg row col" and "row < NUM_ROWS cfg"
    and "col < NUM_COLS cfg"
proof -
  have p: "0 \<le> p" "nat p < NUM_ROWS cfg * NUM_COLS cfg"
    using assms by (simp_all add: in_spreadsheet_def nat_less_iff)
  then have pos: "0 < NUM_COLS cfg"
    by (cases "NUM_COLS cfg = 0") simp_all
  have "nat p div NUM_COLS cfg < NUM_ROWS cfg"
    using p(2) pos by (simp add: less_mult_imp_div_less)
  moreover have "nat p mod NUM_COLS cfg < NUM_COLS cfg"
    using pos by simp
  moreover have "p = cell_at cfg (nat p div NUM_COLS cfg) (nat p mod NUM_COLS cfg)"
    using p(1) by (simp add: cell_at_def)
  ultimately show ?thesis
    using that by blast
qed

text \<open>The reference string of a cell of the array, read as a term of a formula text.\<close>

lemma rendered_reference:
  assumes "in_spreadsheet cfg p" and "NUM_COLS cfg \<le> 26"
    and "get_cell_reference cfg p = Inr str"
  shows "strtod str = (Finite 0, 0)" and "get_cell_by_reference cfg str = Some p"
    and "str \<noteq> []" and "CHR ''+'' \<notin> set str"
proof -
  obtain row col where p: "p = cell_at cfg row col" and row: "row < NUM_ROWS cfg"
    and col: "col < NUM_COLS cfg"
    using assms(1) by (rule in_spreadsheet_cell_at)
  have col26: "col < 26"
    using col assms(2) by simp
  have row99: "row < 99"
  proof (rule ccontr)
    assume "\<not> row < 99"
    then have "get_cell_reference cfg p = Inl BufferOverflow"
      unfolding p by (intro get_cell_reference_overflow [OF col]) simp
    then show False
      using assms(3) by simp
  qed
  have str: "str = char_of (int col + 65) # dec_str (Suc row)"
    using get_cell_reference_cell_at [OF col col26 row99] assms(3) p by simp
  obtain d r where d: "isdigit d" "dec_str (Suc row) = d # r"
    using dec_str_Cons by blast
  have "(of_char (char_of (int (col + 65))) :: nat) = col + 65"
    using col26 by (simp only: of_char_char_of_int)
  then have letter: "(of_char (char_of (int col + 65)) :: nat) = col + 65"
    by (simp add: add.commute)
  show "strtod str = (Finite 0, 0)"
    unfolding str d(2) using col26 d(1) by (intro strtod_letter) (simp_all add: letter)
  show "get_cell_by_reference cfg str = Some p"
    unfolding str p by (rule get_cell_by_reference_reference [OF col26 row row99])
  show "str \<noteq> []"
    by (simp add: str)
  have "char_of (int col + 65) \<noteq> CHR ''+''"
    using letter by auto
  moreover have "CHR ''+'' \<notin> set (dec_str (Suc row))"
    using dec_str_digits [of "CHR ''+''" "Suc row"] no_plus_digit by blast
  ultimately show "CHR ''+'' \<notin> set str"
    by (simp add: str)
qed

lemma rendered_term_token:
  assumes "term_to_string cfg t = Inr str" and "NUM_COLS cfg \<le> 26"
    and "\<And>p. t = CellPtr p \<Longrightarrow> in_spreadsheet cfg p"
  shows "str \<noteq> [] \<and> CHR ''+'' \<notin> set str"
proof (cases t)
  case (Constant c)
  then show ?thesis
    using assms(1) snprintf_fmt_f_not_Nil [of c] no_plus_snprintf_fmt_f [of c]
    by (auto simp: term_to_string_def)
next
  case (CellPtr p)
  then have "get_cell_reference cfg p = Inr str"
    using assms(1) by (simp add: term_to_string_def)
  then show ?thesis
    using rendered_reference(3,4) [OF assms(3) [OF CellPtr] assms(2)] by simp
qed

lemma parse_rendered_term:
  assumes "term_to_string cfg t = Inr str" and "NUM_COLS cfg \<le> 26"
    and "\<And>p. t = CellPtr p \<Longrightarrow> in_spreadsheet cfg p"
    and "length acc < MAX_TERMS"
  shows "string_to_formula_loop cfg (str # rest) acc
    = string_to_formula_loop cfg rest (acc @ [reread t])"
proof (cases t)
  case (Constant c)
  then have str: "str = snprintf 20 (fmt_f c)"
    using assms(1) by (auto simp: term_to_string_def)
  obtain v n where conv: "strtod str = (v, n)"
    by (cases "strtod str")
  then have "n \<noteq> 0"
    using strtod_fmt_f [of c] str by simp
  then show ?thesis
    using conv assms(4) Constant str by simp
next
  case (CellPtr p)
  then have "get_cell_reference cfg p = Inr str"
    using assms(1) by (simp add: term_to_string_def)
  then have "strtod str = (Finite 0, 0)" and "get_cell_by_reference cfg str = Some p"
    using rendered_reference(1,2) [OF assms(3) [OF CellPtr] assms(2)] by simp_all
  then show ?thesis
    using assms(4) CellPtr by simp
qed

lemma parse_rendered_terms:
  assumes "list_all2 (\<lambda>t str. term_to_string cfg t = Inr str) ts strs"
    and "NUM_COLS cfg \<le> 26"
    and "\<And>p. CellPtr p \<in> set ts \<Longrightarrow> in_spreadsheet cfg p"
    and "length acc + length ts \<le> MAX_TERMS"
  shows "string_to_formula_loop cfg strs acc = Inr (Some \<lparr>terms = acc @ map reread ts\<rparr>)"
  using assms(1,3,4)
proof (induction ts strs arbitrary: acc rule: list_all2_induct)
  case Nil
  then show ?case by simp
next
  case (Cons t ts str strs)
  have "string_to_formula_loop cfg (str # strs) acc
      = string_to_formula_loop cfg strs (acc @ [reread t])"
    using Cons.hyps(1) assms(2) Cons.prems by (intro parse_rendered_term) simp_all
  also have "\<dots> = Inr (Some \<lparr>terms = (acc @ [reread t]) @ map reread ts\<rparr>)"
    using Cons.prems by (intro Cons.IH) simp_all
  finally show ?case
    by simp
qed

text \<open>
  Parsing the rendered text of a parsed formula gives the terms of the formula, each read
  back from its text.
\<close>

lemma reparse_rendered:
  assumes "string_to_formula cfg t = Inr (Some f)"
    and "\<forall>p. CellPtr p \<in> set (terms f) \<longrightarrow> in_spreadsheet cfg p"
    and "NUM_COLS cfg \<le> 26"
    and "formula_to_string cfg (Some f) = Inr s"
  shows "string_to_formula cfg s = Inr (Some \<lparr>terms = map reread (terms f)\<rparr>)"
proof -
  have bound: "num_terms f \<le> MAX_TERMS"
    using assms(1) unfolding string_to_formula_def
    by (rule string_to_formula_loop_bound) simp
  have "formula_to_string_loop cfg (terms f) ''='' = Inr s"
    using assms(4) by (simp add: formula_to_string_def split: if_splits)
  then obtain strs
    where strs: "list_all2 (\<lambda>t str. term_to_string cfg t = Inr str) (terms f) strs"
      and s: "s = ''='' @ join_plus strs"
    using formula_to_string_loop_join by blast
  have "str \<noteq> [] \<and> CHR ''+'' \<notin> set str" if mem: "str \<in> set strs" for str
  proof -
    obtain i where i: "i < length strs" "strs ! i = str"
      using mem by (auto simp: in_set_conv_nth)
    have "length (terms f) = length strs"
      using strs by (rule list_all2_lengthD)
    then have "terms f ! i \<in> set (terms f)"
      using i(1) by simp
    moreover have "term_to_string cfg (terms f ! i) = Inr str"
      using list_all2_nthD2 [OF strs i(1)] i(2) by simp
    ultimately show ?thesis
      using assms(2,3) by (intro rendered_term_token [of cfg "terms f ! i"]) auto
  qed
  then have "strtok_plus (drop 1 s) [] = strs"
    unfolding s by (simp add: strtok_plus_join)
  then show ?thesis
    using parse_rendered_terms [OF strs assms(3), of "[]"] assms(2) bound
    by (simp add: string_to_formula_def)
qed

section \<open>Constants that are printed and read again\<close>

text \<open>Digits and their value.\<close>

lemma dec_val_append: "dec_val (xs @ ys) = dec_val xs * 10 ^ length ys + dec_val ys"
proof (induction ys rule: rev_induct)
  case Nil
  show ?case by (simp add: dec_val_def)
next
  case (snoc y ys)
  define d :: nat where "d = of_char y - 48"
  have "dec_val ((xs @ ys) @ [y]) = 10 * dec_val (xs @ ys) + d"
    unfolding d_def by (rule dec_val_snoc)
  also have "\<dots> = 10 * (dec_val xs * 10 ^ length ys + dec_val ys) + d"
    by (simp only: snoc)
  also have "\<dots> = dec_val xs * 10 ^ length (ys @ [y]) + (10 * dec_val ys + d)"
    by (simp add: distrib_left)
  also have "10 * dec_val ys + d = dec_val (ys @ [y])"
    unfolding d_def by (rule dec_val_snoc [symmetric])
  finally show ?case
    by simp
qed

lemma dec_val_zeros: "set zs \<subseteq> {CHR ''0''} \<Longrightarrow> dec_val zs = 0"
proof (induction zs rule: rev_induct)
  case Nil
  show ?case by (simp add: dec_val_def)
next
  case (snoc z zs)
  then show ?case
    using dec_val_snoc [of zs z] by simp
qed

lemma length_dec_str_le: "0 < k \<Longrightarrow> n < 10 ^ k \<Longrightarrow> length (dec_str n) \<le> k"
proof (induction k arbitrary: n)
  case 0
  then show ?case by simp
next
  case (Suc k)
  show ?case
  proof (cases "n < 10")
    case True
    then show ?thesis
      by (subst dec_str.simps) simp
  next
    case False
    have len: "length (dec_str n) = Suc (length (dec_str (n div 10)))"
      using False by (subst dec_str.simps) simp
    have small: "n div 10 < 10 ^ k"
      using Suc.prems(2) by (simp add: less_mult_imp_div_less mult.commute)
    have "0 < k"
      using False Suc.prems(2) by (cases k) simp_all
    then have "length (dec_str (n div 10)) \<le> k"
      using small by (rule Suc.IH)
    then show ?thesis
      using len by simp
  qed
qed

lemma zeros_take: "set (take k ''000000'') \<subseteq> {CHR ''0''}"
proof
  fix c
  assume "c \<in> set (take k ''000000'')"
  then have "c \<in> set ''000000''"
    by (rule in_set_takeD)
  then show "c \<in> {CHR ''0''}"
    by simp
qed

text \<open>The text that \<^verbatim>\<open>%f\<close> prints for a finite number: digits, the point and six digits.\<close>

lemma fmt_f_Finite:
  obtains ip fp where "fmt_f (Finite q) = (if q < 0 then ''-'' else '''') @ ip @ CHR ''.'' # fp"
    and "ip = dec_str (nat (round_half_even (\<bar>q\<bar> * 1000000)) div 1000000)"
    and "length fp = 6" and "\<And>c. c \<in> set fp \<Longrightarrow> isdigit c"
    and "dec_val (ip @ fp) = nat (round_half_even (\<bar>q\<bar> * 1000000))"
proof -
  define n where "n = nat (round_half_even (\<bar>q\<bar> * 1000000))"
  define fr where "fr = dec_str (n mod 1000000)"
  define pad where "pad = take (6 - length fr) ''000000''"
  define ip where "ip = dec_str (n div 1000000)"
  have "n mod 1000000 < 10 ^ 6"
    by simp
  then have fr6: "length fr \<le> 6"
    unfolding fr_def by (intro length_dec_str_le) simp_all
  have len: "length (pad @ fr) = 6"
    using fr6 by (simp add: pad_def)
  have zeros: "set pad \<subseteq> {CHR ''0''}"
    unfolding pad_def by (rule zeros_take)
  have "isdigit CHR ''0''"
    by (simp add: isdigit_def)
  then have digits: "isdigit c" if "c \<in> set (pad @ fr)" for c
    using that zeros dec_str_digits [of c "n mod 1000000"] by (auto simp: fr_def)
  have "dec_val (pad @ fr) = n mod 1000000"
    using dec_val_zeros [OF zeros] by (simp add: dec_val_append fr_def dec_val_dec_str)
  then have "dec_val (ip @ pad @ fr) = n div 1000000 * 10 ^ 6 + n mod 1000000"
    using len dec_val_append [of ip "pad @ fr"] by (simp add: ip_def dec_val_dec_str)
  then have val: "dec_val (ip @ pad @ fr) = n"
    by simp
  have "fmt_f (Finite q) = (if q < 0 then ''-'' else '''') @ ip @ CHR ''.'' # pad @ fr"
    by (simp add: fmt_f_def Let_def n_def fr_def pad_def ip_def)
  then show ?thesis
    using that [of ip "pad @ fr"] len digits val by (simp add: ip_def n_def)
qed

lemma digit_not_letter:
  assumes "isdigit d"
  shows "\<not> ci_match CHR ''i'' d" and "\<not> ci_match CHR ''n'' d" and "\<not> ci_match CHR ''x'' d"
    and "\<not> isspace d" and "d \<noteq> CHR ''-''" and "d \<noteq> CHR ''+''" and "d \<noteq> CHR ''.''"
  using assms by (auto simp: isdigit_def ci_match_def isspace_def)

lemma point_not_digit: "\<not> isdigit CHR ''.''" "\<not> ci_match CHR ''x'' CHR ''.''"
  by (simp_all add: isdigit_def ci_match_def)

text \<open>\<^verbatim>\<open>strtod\<close> on digits, a point and digits: the number that the text denotes, rounded.\<close>

lemma parse_magnitude_decimal_text:
  assumes "ip \<noteq> []" and "\<forall>c\<in>set ip. isdigit c" and "\<forall>c\<in>set fp. isdigit c"
  shows "parse_magnitude (ip @ CHR ''.'' # fp)
    = Some (round_double (of_nat (dec_val (ip @ fp)) * pow10 (- int (length fp))),
        length ip + 1 + length fp)"
proof -
  define s where "s = ip @ CHR ''.'' # fp"
  obtain d r where ip: "ip = d # r"
    using assms(1) by (cases ip) auto
  have d: "isdigit d"
    using assms(2) ip by simp
  obtain c2 t where second: "r @ CHR ''.'' # fp = c2 # t" and c2: "\<not> ci_match CHR ''x'' c2"
  proof (cases r)
    case Nil
    then show ?thesis
      using that [of "CHR ''.''" fp] point_not_digit(2) by simp
  next
    case (Cons c r')
    then have "isdigit c"
      using assms(2) ip by simp
    then show ?thesis
      using that [of c "r' @ CHR ''.'' # fp"] Cons digit_not_letter(3) by simp
  qed
  have s: "s = d # c2 # t"
    using ip second by (simp add: s_def)
  have no_inf: "\<not> ci_prefix ''infinity'' s" "\<not> ci_prefix ''inf'' s"
    using digit_not_letter(1) [OF d] by (simp_all add: s)
  have no_nan: "parse_nan s = None"
    using digit_not_letter(2) [OF d] by (simp add: parse_nan_def s)
  have no_hex: "parse_hex s = None"
    using c2 by (simp add: parse_hex_def s)
  have tw: "takeWhile isdigit s = ip"
    unfolding s_def using assms(2) point_not_digit(1) by (simp add: takeWhile_append2)
  have dw: "dropWhile isdigit s = CHR ''.'' # fp"
    unfolding s_def using assms(2) point_not_digit(1) by (simp add: dropWhile_append2)
  have all: "takeWhile isdigit fp = fp"
    using assms(3) by (intro takeWhile_all) simp
  have scan: "scan_mantissa isdigit s = Some (ip, fp, length ip + 1 + length fp)"
    using assms(1) by (simp add: scan_mantissa_def tw dw all)
  have rest: "drop (Suc (length ip + length fp)) s = []"
    by (simp add: s_def)
  have "parse_decimal s
    = Some (round_double (of_nat (dec_val (ip @ fp)) * pow10 (- int (length fp))),
        length ip + 1 + length fp)"
    by (simp add: parse_decimal_def scan rest parse_exponent_def)
  then show ?thesis
    using no_inf no_nan no_hex by (simp add: parse_magnitude_def s_def [symmetric])
qed

lemma strtod_decimal_text:
  assumes "ip \<noteq> []" and "\<forall>c\<in>set ip. isdigit c" and "\<forall>c\<in>set fp. isdigit c"
  shows "strtod (ip @ CHR ''.'' # fp)
      = (round_double (of_nat (dec_val (ip @ fp)) * pow10 (- int (length fp))),
         length ip + 1 + length fp)"
    and "strtod (CHR ''-'' # ip @ CHR ''.'' # fp)
      = (dbl_neg (round_double (of_nat (dec_val (ip @ fp)) * pow10 (- int (length fp)))),
         1 + (length ip + 1 + length fp))"
proof -
  note mag = parse_magnitude_decimal_text [OF assms]
  obtain d r where ip: "ip = d # r"
    using assms(1) by (cases ip) auto
  have d: "isdigit d"
    using assms(2) ip by simp
  have "takeWhile isspace (ip @ CHR ''.'' # fp) = []"
    using digit_not_letter(4) [OF d] by (simp add: ip)
  moreover have "scan_sign (ip @ CHR ''.'' # fp) = (False, 0)"
    using digit_not_letter(5,6) [OF d] by (simp add: ip scan_sign_def)
  ultimately show "strtod (ip @ CHR ''.'' # fp)
      = (round_double (of_nat (dec_val (ip @ fp)) * pow10 (- int (length fp))),
         length ip + 1 + length fp)"
    using mag by (simp add: strtod_def)
  have "takeWhile isspace (CHR ''-'' # ip @ CHR ''.'' # fp) = []"
    by (simp add: isspace_def)
  moreover have "scan_sign (CHR ''-'' # ip @ CHR ''.'' # fp) = (True, 1)"
    by (simp add: scan_sign_def)
  ultimately show "strtod (CHR ''-'' # ip @ CHR ''.'' # fp)
      = (dbl_neg (round_double (of_nat (dec_val (ip @ fp)) * pow10 (- int (length fp)))),
         1 + (length ip + 1 + length fp))"
    using mag by (simp add: strtod_def)
qed

lemma rne_nonneg: "0 \<le> x \<Longrightarrow> 0 \<le> round_half_even x"
  using rne_ge [of 0 x] by simp

lemma pow10_minus_6: "pow10 (- int 6) = 1 / 1000000"
  by (simp add: pow10_def)

text \<open>\<^verbatim>\<open>strtod\<close> reads the text that \<^verbatim>\<open>%f\<close> prints for a finite number in full.\<close>

lemma strtod_fmt_f_Finite:
  "strtod (fmt_f (Finite q))
    = (if q < 0 then dbl_neg (round_double (six_decimals \<bar>q\<bar>))
       else round_double (six_decimals \<bar>q\<bar>), length (fmt_f (Finite q)))"
proof -
  obtain ip fp
    where f: "fmt_f (Finite q) = (if q < 0 then ''-'' else '''') @ ip @ CHR ''.'' # fp"
      and ip: "ip = dec_str (nat (round_half_even (\<bar>q\<bar> * 1000000)) div 1000000)"
      and len: "length fp = 6" and digits: "\<And>c. c \<in> set fp \<Longrightarrow> isdigit c"
      and val: "dec_val (ip @ fp) = nat (round_half_even (\<bar>q\<bar> * 1000000))"
    using fmt_f_Finite [of q] by blast
  have ip1: "ip \<noteq> []"
    unfolding ip by (rule dec_str_not_Nil)
  have ip2: "\<forall>c\<in>set ip. isdigit c"
    unfolding ip using dec_str_digits by blast
  have fp2: "\<forall>c\<in>set fp. isdigit c"
    using digits by blast
  have "0 \<le> round_half_even (\<bar>q\<bar> * 1000000)"
    by (rule rne_nonneg) simp
  then have "(of_nat (dec_val (ip @ fp)) :: rat) = of_int (round_half_even (\<bar>q\<bar> * 1000000))"
    unfolding val by simp
  then have v: "of_nat (dec_val (ip @ fp)) * pow10 (- int (length fp)) = six_decimals \<bar>q\<bar>"
    unfolding len by (simp only: pow10_minus_6 six_decimals_def)
  note rd = strtod_decimal_text [OF ip1 ip2 fp2, unfolded v]
  show ?thesis
  proof (cases "q < 0")
    case True
    then show ?thesis
      using rd(2) by (simp add: f)
  next
    case False
    then show ?thesis
      using rd(1) by (simp add: f)
  qed
qed

text \<open>The double that a finite constant is read back as, whatever its sign.\<close>

lemma reread_value:
  "(if q < 0 then dbl_neg (round_double (six_decimals \<bar>q\<bar>)) else round_double (six_decimals \<bar>q\<bar>))
    = (if q < 0 \<and> six_decimals q = 0 then NegZero else round_double (six_decimals q))"
proof (cases "q < 0")
  case False
  then show ?thesis by simp
next
  case True
  define x where "x = six_decimals \<bar>q\<bar>"
  have sq: "six_decimals q = - x"
    using True six_decimals_minus [of "\<bar>q\<bar>"] by (simp add: x_def)
  have "0 \<le> round_half_even (\<bar>q\<bar> * 1000000)"
    by (rule rne_nonneg) simp
  then have x0: "0 \<le> x"
    by (simp add: x_def six_decimals_def)
  have lhs: "(if q < 0 then dbl_neg (round_double (six_decimals \<bar>q\<bar>))
      else round_double (six_decimals \<bar>q\<bar>)) = dbl_neg (round_double x)"
    using True by (simp only: x_def if_True)
  have rhs: "(if q < 0 \<and> six_decimals q = 0 then NegZero else round_double (six_decimals q))
      = (if x = 0 then NegZero else round_double (- x))"
    using True by (simp add: sq)
  show ?thesis
    unfolding lhs rhs
  proof (cases "x = 0")
    case True
    then show "dbl_neg (round_double x) = (if x = 0 then NegZero else round_double (- x))"
      by (simp add: round_double_0 dbl_neg_def)
  next
    case False
    then have "0 < x"
      using x0 by simp
    then have "round_double (- x) = dbl_neg (round_double x)"
      by (rule round_double_minus)
    then show "dbl_neg (round_double x) = (if x = 0 then NegZero else round_double (- x))"
      using False by simp
  qed
qed

lemma of_nat_less_pow10: "(of_nat n :: rat) < 10 ^ k \<longleftrightarrow> n < 10 ^ k"
proof -
  have "(10 ^ k :: rat) = of_nat (10 ^ k)"
    by simp
  then show ?thesis
    by (simp only: of_nat_less_iff)
qed

text \<open>The text of a constant that is not cut has at most 19 characters.\<close>

lemma uncut_length:
  assumes "uncut q"
  shows "length (fmt_f (Finite q)) \<le> 19"
proof -
  define n where "n = nat (round_half_even (\<bar>q\<bar> * 1000000))"
  obtain ip fp
    where f: "fmt_f (Finite q) = (if q < 0 then ''-'' else '''') @ ip @ CHR ''.'' # fp"
      and ip: "ip = dec_str (n div 1000000)"
      and len: "length fp = 6"
    unfolding n_def using fmt_f_Finite [of q] by blast
  have "0 \<le> round_half_even (\<bar>q\<bar> * 1000000)"
    by (rule rne_nonneg) simp
  then have six: "six_decimals \<bar>q\<bar> = of_nat n / 1000000"
    by (simp add: six_decimals_def n_def)
  show ?thesis
  proof (cases "q < 0")
    case True
    then have "six_decimals \<bar>q\<bar> < 10 ^ 11"
      using assms six_decimals_minus [of q] by (simp add: uncut_def)
    then have "(of_nat n :: rat) < 10 ^ 17"
      by (simp add: six)
    then have "n < 10 ^ 17"
      by (simp only: of_nat_less_pow10)
    then have "n div 1000000 < 10 ^ 11"
      by (simp add: less_mult_imp_div_less)
    then have "length ip \<le> 11"
      unfolding ip by (intro length_dec_str_le) simp_all
    then show ?thesis
      using True len by (simp add: f)
  next
    case False
    then have "six_decimals \<bar>q\<bar> < 10 ^ 12"
      using assms by (simp add: uncut_def)
    then have "(of_nat n :: rat) < 10 ^ 18"
      by (simp add: six)
    then have "n < 10 ^ 18"
      by (simp only: of_nat_less_pow10)
    then have "n div 1000000 < 10 ^ 12"
      by (simp add: less_mult_imp_div_less)
    then have "length ip \<le> 12"
      unfolding ip by (intro length_dec_str_le) simp_all
    then show ?thesis
      using False len by (simp add: f)
  qed
qed

lemma six_decimals_nonzero:
  assumes "six_decimals q \<noteq> 0"
  shows "1 / 1000000 \<le> \<bar>six_decimals q\<bar>"
proof -
  define K where "K = round_half_even (q * 1000000)"
  have "K \<noteq> 0"
    using assms by (auto simp: six_decimals_def K_def)
  then have "1 \<le> \<bar>K\<bar>"
    by simp
  then have "(1 :: rat) \<le> \<bar>of_int K\<bar>"
    by (metis of_int_1_le_iff of_int_abs)
  then have "1 / 1000000 \<le> \<bar>of_int K :: rat\<bar> / 1000000"
    by (intro divide_right_mono) simp_all
  then show ?thesis
    by (simp add: six_decimals_def K_def)
qed

text \<open>Below \<open>2\<^sup>3\<^sup>3\<close> the double that a constant is read back as is close to it.\<close>

lemma reread_close:
  assumes "\<bar>q\<bar> < 2 ^ 33"
  shows "close_to (if q < 0 \<and> six_decimals q = 0 then NegZero
    else round_double (six_decimals q)) q"
proof -
  define x where "x = six_decimals q"
  have err: "\<bar>x - q\<bar> \<le> 1 / 2000000"
    unfolding x_def by (rule six_decimals_error)
  have "\<bar>q\<bar> \<le> of_int (2 ^ 33)"
    using assms by simp
  then have "\<bar>x\<bar> \<le> of_int (2 ^ 33)"
    unfolding x_def by (rule six_decimals_bound)
  then have x33: "\<bar>x\<bar> \<le> 2 ^ 33"
    by simp
  show ?thesis
  proof (cases "q < 0 \<and> x = 0")
    case True
    then have "\<bar>q\<bar> < 1 / 1000000"
      using err by simp
    then show ?thesis
      using True by (simp add: close_to_def x_def [symmetric])
  next
    case False
    have "0 \<le> x \<or> 1 < \<bar>x\<bar> * 2 ^ 1075"
    proof (cases "0 \<le> x")
      case True
      then show ?thesis by simp
    next
      case neg: False
      then have "1 / 1000000 \<le> \<bar>x\<bar>"
        unfolding x_def by (intro six_decimals_nonzero) auto
      then have "1 / 1000000 * 2 ^ 1075 \<le> \<bar>x\<bar> * (2 ^ 1075 :: rat)"
        by (intro mult_right_mono) simp_all
      moreover have "(1 :: rat) < 1 / 1000000 * 2 ^ 1075"
        by simp
      ultimately show ?thesis
        by linarith
    qed
    with x33 obtain y where y: "round_double x = Finite y"
      using round_double_small by blast
    have "\<bar>y - x\<bar> \<le> 1 / 2 ^ 21"
      using y x33 by (rule round_double_error)
    moreover have "(1 :: rat) / 2 ^ 21 + 1 / 2000000 < 1 / 1000000"
      by simp
    ultimately have "\<bar>y - q\<bar> < 1 / 1000000"
      using err by linarith
    then have "close_to (Finite y) q"
      by (simp add: close_to_def)
    moreover have "\<not> (q < 0 \<and> six_decimals q = 0)"
      using False by (simp add: x_def)
    moreover have "round_double (six_decimals q) = Finite y"
      using y by (simp add: x_def)
    ultimately show ?thesis
      by (simp only: if_False)
  qed
qed

lemma reread_big:
  assumes "binary64 q" and "2 ^ 33 \<le> \<bar>q\<bar>"
  shows "(if q < 0 \<and> six_decimals q = 0 then NegZero else round_double (six_decimals q))
    = Finite q"
  using big_constant [OF assms] by simp

lemma reread_six_decimal:
  assumes "Finite q = round_double (of_int m / 1000000)" and "\<bar>q\<bar> < 2 ^ 33"
  shows "(if q < 0 \<and> six_decimals q = 0 then NegZero else round_double (six_decimals q))
    = Finite q"
proof -
  note six = six_decimal_constant [OF assms(1) [symmetric] assms(2)]
  have "\<not> (q < 0 \<and> six_decimals q = 0)"
  proof
    assume a: "q < 0 \<and> six_decimals q = 0"
    then have "m = 0"
      using six(1) by simp
    then have "q = 0"
      using assms(1) by (simp add: round_double_0)
    then show False
      using a by simp
  qed
  then show ?thesis
    using six(2) by simp
qed

text \<open>What a constant of a formula is read back as, after \<^verbatim>\<open>snprintf\<close> and \<^verbatim>\<open>strtod\<close>.\<close>

lemma constant_reread:
  assumes "is_double c"
  shows "constant_reread_as c (fst (strtod (snprintf 20 (fmt_f c))))"
proof (cases c)
  case (Finite q)
  show ?thesis
  proof (cases "uncut q")
    case False
    then show ?thesis
      by (simp add: constant_reread_as_def Finite)
  next
    case True
    define r where "r = (if q < 0 \<and> six_decimals q = 0 then NegZero
      else round_double (six_decimals q))"
    have b: "binary64 q"
      using assms by (simp add: is_double_def Finite)
    have "snprintf 20 (fmt_f c) = fmt_f c"
      using uncut_length [OF True] by (simp add: snprintf_def Finite)
    then have c': "fst (strtod (snprintf 20 (fmt_f c))) = r"
      by (simp add: Finite strtod_fmt_f_Finite reread_value r_def)
    have big: "r = Finite q" if "2 ^ 33 \<le> \<bar>q\<bar>"
      unfolding r_def using b that by (rule reread_big)
    have six: "r = Finite q" if "Finite q = round_double (of_int m / 1000000)" for m
    proof (cases "2 ^ 33 \<le> \<bar>q\<bar>")
      case True
      then show ?thesis by (rule big)
    next
      case False
      then show ?thesis
        unfolding r_def using that by (intro reread_six_decimal [of q m]) simp_all
    qed
    have close: "close_to r q"
    proof (cases "2 ^ 33 \<le> \<bar>q\<bar>")
      case True
      then show ?thesis
        using big by (simp add: close_to_def)
    next
      case False
      then show ?thesis
        unfolding r_def by (intro reread_close) simp
    qed
    have "constant_reread_as (Finite q) r
        = (close_to r q
          \<and> (2 ^ 33 \<le> \<bar>q\<bar> \<or> (\<exists>m::int. Finite q = round_double (of_int m / 1000000))
              \<longrightarrow> r = Finite q))"
      using True by (simp add: constant_reread_as_def r_def)
    moreover have "2 ^ 33 \<le> \<bar>q\<bar> \<or> (\<exists>m::int. Finite q = round_double (of_int m / 1000000))
        \<longrightarrow> r = Finite q"
      using big six by blast
    ultimately show ?thesis
      using close by (simp only: Finite c' [unfolded Finite] simp_thms)
  qed
next
  case NegZero
  then show ?thesis
    by (simp add: constant_reread_as_def snprintf_def fmt_f_def strtod_eval)
next
  case PosInf
  then show ?thesis
    by (simp add: constant_reread_as_def snprintf_def fmt_f_def strtod_eval)
next
  case NegInf
  then show ?thesis
    by (simp add: constant_reread_as_def snprintf_def fmt_f_def strtod_eval)
next
  case (NaN s)
  then show ?thesis
    by (cases s) (simp_all add: constant_reread_as_def snprintf_def fmt_f_def strtod_eval)
qed

lemma length_dec_str_ge: "10 ^ k \<le> n \<Longrightarrow> k < length (dec_str n)"
proof (induction k arbitrary: n)
  case 0
  then show ?case
    using dec_str_not_Nil [of n] by simp
next
  case (Suc k)
  define t :: nat where "t = 10 ^ k"
  have "1 \<le> t" and "10 * t \<le> n"
    using Suc.prems by (simp_all add: t_def)
  then have big: "\<not> n < 10"
    by linarith
  have len: "length (dec_str n) = Suc (length (dec_str (n div 10)))"
    using big by (subst dec_str.simps) simp
  have "10 ^ k \<le> n div 10"
    using Suc.prems by (simp add: less_eq_div_iff_mult_less_eq mult.commute)
  then have "k < length (dec_str (n div 10))"
    by (rule Suc.IH)
  then show ?case
    using len by simp
qed

lemma of_nat_pow10_le: "(10 ^ k :: rat) \<le> of_nat n \<longleftrightarrow> 10 ^ k \<le> n"
proof -
  have "(10 ^ k :: rat) = of_nat (10 ^ k)"
    by simp
  then show ?thesis
    by (simp only: of_nat_le_iff)
qed

text \<open>The text of any other finite constant has 20 characters or more.\<close>

lemma cut_length:
  assumes "\<not> uncut q"
  shows "19 < length (fmt_f (Finite q))"
proof -
  define n where "n = nat (round_half_even (\<bar>q\<bar> * 1000000))"
  obtain ip fp
    where f: "fmt_f (Finite q) = (if q < 0 then ''-'' else '''') @ ip @ CHR ''.'' # fp"
      and ip: "ip = dec_str (n div 1000000)"
      and len: "length fp = 6"
    unfolding n_def using fmt_f_Finite [of q] by blast
  have "0 \<le> round_half_even (\<bar>q\<bar> * 1000000)"
    by (rule rne_nonneg) simp
  then have six: "six_decimals \<bar>q\<bar> = of_nat n / 1000000"
    by (simp add: six_decimals_def n_def)
  show ?thesis
  proof (cases "q < 0")
    case True
    then have "10 ^ 11 \<le> six_decimals \<bar>q\<bar>"
      using assms six_decimals_minus [of q] by (simp add: uncut_def)
    then have "(10 ^ 17 :: rat) \<le> of_nat n"
      by (simp add: six)
    then have "10 ^ 17 \<le> n"
      by (simp only: of_nat_pow10_le)
    then have "10 ^ 11 \<le> n div 1000000"
      by (simp add: less_eq_div_iff_mult_less_eq)
    then have "11 < length ip"
      unfolding ip by (rule length_dec_str_ge)
    then show ?thesis
      using True len by (simp add: f)
  next
    case False
    then have "10 ^ 12 \<le> six_decimals \<bar>q\<bar>"
      using assms by (simp add: uncut_def)
    then have "(10 ^ 18 :: rat) \<le> of_nat n"
      by (simp add: six)
    then have "10 ^ 18 \<le> n"
      by (simp only: of_nat_pow10_le)
    then have "10 ^ 12 \<le> n div 1000000"
      by (simp add: less_eq_div_iff_mult_less_eq)
    then have "12 < length ip"
      unfolding ip by (rule length_dec_str_ge)
    then show ?thesis
      using False len by (simp add: f)
  qed
qed

text \<open>The constants of a parsed formula are doubles.\<close>

lemma binary64_0: "binary64 0"
proof -
  have "\<bar>0::rat\<bar> = of_int 0 * pow2 (max (ilog2 \<bar>0\<bar>) (- 1022) - 52)"
    by simp
  then have "\<exists>M::int. \<bar>0::rat\<bar> = of_int M * pow2 (max (ilog2 \<bar>0\<bar>) (- 1022) - 52)"
    by (rule exI)
  then show ?thesis
    unfolding binary64_def by simp
qed

lemma is_double_round: "is_double (round_double x)"
  by (cases "round_double x") (simp_all add: is_double_def round_double_binary64)

lemma is_double_neg: "is_double v \<Longrightarrow> is_double (dbl_neg v)"
  by (cases v) (simp_all add: is_double_def dbl_neg_def binary64_minus binary64_0)

lemma is_double_special: "is_double PosInf" "is_double (NaN b)"
  by (simp_all add: is_double_def)

lemma parse_magnitude_double: "parse_magnitude s = Some (v, n) \<Longrightarrow> is_double v"
  by (auto simp: parse_magnitude_def parse_nan_def parse_hex_def parse_decimal_def Let_def
      is_double_round is_double_special
      split: if_splits option.splits prod.splits list.splits)

lemma strtod_double: "is_double (fst (strtod s))"
proof -
  obtain neg k where sign: "scan_sign (drop (length (takeWhile isspace s)) s) = (neg, k)"
    by (cases "scan_sign (drop (length (takeWhile isspace s)) s)")
  show ?thesis
  proof (cases "parse_magnitude (drop (length (takeWhile isspace s) + k) s)")
    case None
    then show ?thesis
      using sign binary64_0 by (simp add: strtod_def is_double_def)
  next
    case (Some r)
    obtain v n where r: "r = (v, n)"
      by (cases r)
    have "is_double v"
      using Some r parse_magnitude_double by blast
    then show ?thesis
      using sign Some r is_double_neg [of v] by (simp add: strtod_def)
  qed
qed

lemma string_to_formula_loop_doubles:
  "string_to_formula_loop cfg toks acc = Inr (Some f) \<Longrightarrow>
   (\<And>c. Constant c \<in> set acc \<Longrightarrow> is_double c) \<Longrightarrow>
   Constant c \<in> set (terms f) \<Longrightarrow> is_double c"
proof (induction toks arbitrary: acc)
  case Nil
  then show ?case by auto
next
  case (Cons tok toks)
  obtain number n where conv: "strtod tok = (number, n)"
    by (cases "strtod tok")
  have number: "is_double number"
    using strtod_double [of tok] conv by simp
  show ?case
  proof (cases "n \<noteq> 0")
    case True
    then have "string_to_formula_loop cfg toks (acc @ [Constant number]) = Inr (Some f)"
      using Cons.prems(1) conv by (auto split: if_splits)
    moreover have "is_double d" if "Constant d \<in> set (acc @ [Constant number])" for d
      using that Cons.prems(2) [of d] number by auto
    ultimately show ?thesis
      using Cons.prems(3) by (rule Cons.IH)
  next
    case False
    then obtain cell where "get_cell_by_reference cfg tok = Some cell"
      using Cons.prems(1) conv by (cases "get_cell_by_reference cfg tok") simp_all
    then have "string_to_formula_loop cfg toks (acc @ [CellPtr cell]) = Inr (Some f)"
      using Cons.prems(1) conv False by (auto split: if_splits)
    moreover have "is_double d" if "Constant d \<in> set (acc @ [CellPtr cell])" for d
      using that Cons.prems(2) [of d] by auto
    ultimately show ?thesis
      using Cons.prems(3) by (rule Cons.IH)
  qed
qed

lemma reread_as_reread:
  assumes "\<And>c. t = Constant c \<Longrightarrow> is_double c"
  shows "reread_as t (reread t)"
proof (cases t)
  case (Constant c)
  then show ?thesis
    using constant_reread [of c] assms by simp
next
  case (CellPtr p)
  then show ?thesis by simp
qed

section \<open>The round trip of a formula\<close>

text \<open>
  C8, as the code has it. Let a formula text parse into a formula whose cell references
  all point into the array of a grid of at most 26 columns, and let
  \<^verbatim>\<open>formula_to_string\<close> render that formula within its buffer. Then the rendered text
  parses into a formula with the same number of terms, in the same order. Every cell
  reference is the same. A constant that is a NaN, an infinity or \<open>-0.0\<close> is the same. A
  finite constant whose \<^verbatim>\<open>%f\<close> text has at most 19 characters (twelve digits before
  the point, eleven after a minus sign) is read back as the double nearest to the
  constant rounded to six decimals: that is less than \<open>10\<^sup>-\<^sup>6\<close> away from the constant,
  and it is the constant itself when the constant is at least \<open>2\<^sup>3\<^sup>3\<close> in magnitude or is
  the double nearest to a number of at most six decimals. A finite constant with a longer
  text is read back as what the first 19 characters of the text denote.
\<close>

theorem C8_render_and_reparse:
  assumes "string_to_formula cfg t = Inr (Some f)"
    and "\<forall>p. CellPtr p \<in> set (terms f) \<longrightarrow> in_spreadsheet cfg p"
    and "NUM_COLS cfg \<le> 26"
    and "formula_to_string cfg (Some f) = Inr s"
  shows "\<exists>f'. string_to_formula cfg s = Inr (Some f')
    \<and> list_all2 reread_as (terms f) (terms f')"
proof -
  have "is_double c" if "Constant c \<in> set (terms f)" for c
    using assms(1) _ that unfolding string_to_formula_def
    by (rule string_to_formula_loop_doubles) simp
  then have "reread_as u (reread u)" if "u \<in> set (terms f)" for u
    using that by (intro reread_as_reread) auto
  then have "list_all2 reread_as (terms f) (map reread (terms f))"
    by (simp add: list_all2_map2 list.rel_refl_strong)
  moreover have "string_to_formula cfg s = Inr (Some \<lparr>terms = map reread (terms f)\<rparr>)"
    using assms by (rule reparse_rendered)
  ultimately show ?thesis
    by simp
qed

theorem C8_render_and_reparse_witness:
  "string_to_formula example_config ''=A1+0.000000476837158203125+B2''
     = Inr (Some \<lparr>terms = [CellPtr 0, Constant (Finite (1 / 2097152)), CellPtr 27]\<rparr>)
   \<and> in_spreadsheet example_config 0 \<and> in_spreadsheet example_config 27
   \<and> NUM_COLS example_config \<le> 26
   \<and> formula_to_string example_config
        (Some \<lparr>terms = [CellPtr 0, Constant (Finite (1 / 2097152)), CellPtr 27]\<rparr>)
     = Inr ''=A1+0.000000+B2''
   \<and> string_to_formula example_config ''=A1+0.000000+B2''
     = Inr (Some \<lparr>terms = [CellPtr 0, Constant (Finite 0), CellPtr 27]\<rparr>)
   \<and> list_all2 reread_as [CellPtr 0, Constant (Finite (1 / 2097152)), CellPtr 27]
        [CellPtr 0, Constant (Finite 0), CellPtr 27]
   \<and> string_to_formula example_config ''=A1+2.5+B2''
     = Inr (Some \<lparr>terms = [CellPtr 0, Constant (Finite (5 / 2)), CellPtr 27]\<rparr>)
   \<and> formula_to_string example_config
        (Some \<lparr>terms = [CellPtr 0, Constant (Finite (5 / 2)), CellPtr 27]\<rparr>)
     = Inr ''=A1+2.500000+B2''
   \<and> string_to_formula example_config ''=A1+2.500000+B2''
     = Inr (Some \<lparr>terms = [CellPtr 0, Constant (Finite (5 / 2)), CellPtr 27]\<rparr>)
   \<and> list_all2 reread_as [CellPtr 0, Constant (Finite (5 / 2)), CellPtr 27]
        [CellPtr 0, Constant (Finite (5 / 2)), CellPtr 27]"
proof -
  let ?f = "\<lparr>terms = [CellPtr 0, Constant (Finite (1 / 2097152)), CellPtr 27]\<rparr>"
  let ?g = "\<lparr>terms = [CellPtr 0, Constant (Finite (5 / 2)), CellPtr 27]\<rparr>"
  have parse: "string_to_formula example_config ''=A1+0.000000476837158203125+B2''
      = Inr (Some ?f)"
    "string_to_formula example_config ''=A1+2.5+B2'' = Inr (Some ?g)"
    by (simp_all add: string_to_formula_def strtod_eval reference_eval MAX_TERMS_def
        example_config_def)
  have cells: "in_spreadsheet example_config 0" "in_spreadsheet example_config 27"
    by (simp_all add: in_spreadsheet_def example_config_def)
  then have inside: "\<forall>p. CellPtr p \<in> set (terms ?f) \<longrightarrow> in_spreadsheet example_config p"
    "\<forall>p. CellPtr p \<in> set (terms ?g) \<longrightarrow> in_spreadsheet example_config p"
    by simp_all
  have cols: "NUM_COLS example_config \<le> 26"
    by (simp add: example_config_def)
  have render: "formula_to_string example_config (Some ?f) = Inr ''=A1+0.000000+B2''"
    "formula_to_string example_config (Some ?g) = Inr ''=A1+2.500000+B2''"
    by (simp_all add: print_eval example_config_def)
  have again: "string_to_formula example_config ''=A1+0.000000+B2''
      = Inr (Some \<lparr>terms = [CellPtr 0, Constant (Finite 0), CellPtr 27]\<rparr>)"
    "string_to_formula example_config ''=A1+2.500000+B2'' = Inr (Some ?g)"
    by (simp_all add: string_to_formula_def strtod_eval reference_eval MAX_TERMS_def
        example_config_def)
  show ?thesis
    using parse cells cols render again
      C8_render_and_reparse [OF parse(1) inside(1) cols render(1)]
      C8_render_and_reparse [OF parse(2) inside(2) cols render(2)]
    by simp
qed

text \<open>
  A constant whose text is cut: \<^verbatim>\<open>=1e19\<close> parses into the constant \<open>10\<^sup>1\<^sup>9\<close>, of which
  \<^verbatim>\<open>snprintf\<close> keeps the first 19 of 20 digits, and that text parses into \<open>10\<^sup>1\<^sup>8\<close>.
\<close>

lemma cut_constant_example:
  "string_to_formula example_config ''=1e19''
     = Inr (Some \<lparr>terms = [Constant (Finite 10000000000000000000)]\<rparr>)
   \<and> formula_to_string example_config
        (Some \<lparr>terms = [Constant (Finite 10000000000000000000)]\<rparr>)
     = Inr ''=1000000000000000000''
   \<and> string_to_formula example_config ''=1000000000000000000''
     = Inr (Some \<lparr>terms = [Constant (Finite 1000000000000000000)]\<rparr>)"
  by (simp add: string_to_formula_def strtod_eval MAX_TERMS_def print_eval example_config_def)

text \<open>
  A NaN whose sign bit is set is printed as \<^verbatim>\<open>-nan\<close>: the text \<^verbatim>\<open>=-nan+A10+B1+C1+D1+E1\<close>
  of 21 characters parses into a formula whose rendering, the same 21 characters, does
  not fit the buffer of a display width of 20.
\<close>

lemma negative_nan_example:
  "string_to_formula example_config ''=-nan+A10+B1+C1+D1+E1''
     = Inr (Some \<lparr>terms = [Constant (NaN True), CellPtr 234, CellPtr 1, CellPtr 2,
          CellPtr 3, CellPtr 4]\<rparr>)
   \<and> formula_to_string example_config
        (Some \<lparr>terms = [Constant (NaN True), CellPtr 234, CellPtr 1, CellPtr 2,
          CellPtr 3, CellPtr 4]\<rparr>)
     = Inl BufferOverflow"
  by (simp add: string_to_formula_def strtod_eval reference_eval MAX_TERMS_def print_eval
      example_config_def)

text \<open>
  C8, the counterexample to the round trip as the specification states it: the text
  \<^verbatim>\<open>=0.000000476837158203125\<close> parses into the constant \<open>2\<^sup>-\<^sup>2\<^sup>1\<close>, which is rendered as
  \<^verbatim>\<open>=0.000000\<close>, and that text parses into the constant 0.
\<close>

theorem C8_small_constant_counterexample:
  "string_to_formula example_config ''=0.000000476837158203125''
     = Inr (Some \<lparr>terms = [Constant (Finite (1 / 2097152))]\<rparr>)
   \<and> formula_to_string example_config (Some \<lparr>terms = [Constant (Finite (1 / 2097152))]\<rparr>)
     = Inr ''=0.000000''
   \<and> string_to_formula example_config ''=0.000000''
     = Inr (Some \<lparr>terms = [Constant (Finite 0)]\<rparr>)
   \<and> Constant (Finite (1 / 2097152)) \<noteq> Constant (Finite 0)"
  by (simp add: string_to_formula_def strtod_eval MAX_TERMS_def print_eval example_config_def)

end
